theory Spec2Isabelle
  imports Main "HOL-Library.Word" "HOL-Library.Char_ord" "HOL-Library.List_Lexorder"
    "HOL-Library.Product_Lexorder"
begin

unbundle bit_operations_syntax

section \<open>Secure_chain: the hash-linked activity log of local-backend/index.js\<close>

text \<open>
  The watcher script \<^verbatim>\<open>local-backend/index.js\<close> listens to the \<^verbatim>\<open>activityLogs\<close>
  collection and appends one block per added activity to the \<^verbatim>\<open>blockchain\<close> collection.
  A block's hash is \<^verbatim>\<open>crypto.SHA256(JSON.stringify(newBlock)).toString()\<close>. The
  development embeds the three library functions the hash is made of (JSON.stringify,
  crypto-js SHA256 on a string, WordArray.toString), the two Firestore queries the script
  uses, the script's functions, and the Dashboard's derivation of the current file list.

  A JavaScript string is modelled as an Isabelle \<^typ>\<open>string\<close>: a list of code units
  below 256. Strings with a code unit above 255 have no value in the model.
\<close>

subsection \<open>crypto-js: SHA256 and hex encoding\<close>

type_synonym u32 = "32 word"
type_synonym byte = "8 word"

text \<open>The eight 32-bit words of the hash state (\<^verbatim>\<open>this._hash.words\<close>).\<close>
type_synonym hstate = "u32 \<times> u32 \<times> u32 \<times> u32 \<times> u32 \<times> u32 \<times> u32 \<times> u32"

text \<open>\<^verbatim>\<open>(x << (32 - n)) | (x >>> n)\<close>\<close>
definition rotr :: "nat \<Rightarrow> u32 \<Rightarrow> u32" where
  "rotr n x = push_bit (32 - n) x OR drop_bit n x"

text \<open>
  crypto-js does not list the round constants: it computes them when the module loads, as
  the first 32 fractional bits of the cube roots of the first 64 primes
  (\<^verbatim>\<open>getFractionalBits(Math.pow(n, 1 / 3))\<close>). The model takes the bits from the
  integer root: \<open>iroot k n\<close> is the greatest \<open>r\<close> below \<open>2\<^sup>4\<^sup>0\<close> with \<open>r\<^sup>k \<le> n\<close>.
\<close>
definition isPrime :: "nat \<Rightarrow> bool" where
  "isPrime n = list_all (\<lambda>factor. n < factor * factor \<or> n mod factor \<noteq> 0) [2..<Suc n]"

fun rootBits :: "nat \<Rightarrow> nat \<Rightarrow> nat \<Rightarrow> nat \<Rightarrow> nat" where
  "rootBits k n 0 r = r"
| "rootBits k n (Suc b) r = rootBits k n b (if (r + 2 ^ b) ^ k \<le> n then r + 2 ^ b else r)"

definition iroot :: "nat \<Rightarrow> nat \<Rightarrow> nat" where
  "iroot k n = rootBits k n 40 0"

definition getFractionalBits :: "nat \<Rightarrow> nat \<Rightarrow> u32" where
  "getFractionalBits k n = of_nat (iroot k (n * 2 ^ (32 * k)))"

definition K :: "u32 list" where
  "K = map (getFractionalBits 3) (take 64 (filter isPrime [2..<312]))"

text \<open>
  The initial hash value: the first 32 fractional bits of the square roots of the first
  eight primes.
\<close>
definition H_init :: hstate where
  "H_init = (0x6a09e667, 0xbb67ae85, 0x3c6ef372, 0xa54ff53a,
             0x510e527f, 0x9b05688c, 0x1f83d9ab, 0x5be0cd19)"

definition gamma0 :: "u32 \<Rightarrow> u32" where
  "gamma0 x = rotr 7 x XOR rotr 18 x XOR drop_bit 3 x"

definition gamma1 :: "u32 \<Rightarrow> u32" where
  "gamma1 x = rotr 17 x XOR rotr 19 x XOR drop_bit 10 x"

text \<open>
  The message schedule \<^verbatim>\<open>W[i] = gamma0(W[i-15]) + W[i-7] + gamma1(W[i-2]) + W[i-16]\<close>,
  kept newest word first: in \<open>ws\<close> the word \<^verbatim>\<open>W[i-j]\<close> is \<open>ws ! (j - 1)\<close>.
\<close>
fun schedule :: "nat \<Rightarrow> u32 list \<Rightarrow> u32 list" where
  "schedule 0 ws = ws"
| "schedule (Suc n) ws =
     schedule n ((gamma0 (ws ! 14) + ws ! 6 + gamma1 (ws ! 1) + ws ! 15) # ws)"

text \<open>One of the 64 rounds, on the round constant and the schedule word.\<close>
definition round256 :: "hstate \<Rightarrow> u32 \<times> u32 \<Rightarrow> hstate" where
  "round256 s kw = (case s of (a, b, c, d, e, f, g, h) \<Rightarrow>
     let ch = (e AND f) XOR (NOT e AND g);
         maj = (a AND b) XOR (a AND c) XOR (b AND c);
         sigma0 = rotr 2 a XOR rotr 13 a XOR rotr 22 a;
         sigma1 = rotr 6 e XOR rotr 11 e XOR rotr 25 e;
         t1 = h + sigma1 + ch + fst kw + snd kw;
         t2 = sigma0 + maj
     in (t1 + t2, a, b, c, d + t1, e, f, g))"

definition doProcessBlock :: "hstate \<Rightarrow> u32 list \<Rightarrow> hstate" where
  "doProcessBlock H M =
     (case (H, foldl round256 H (zip K (rev (schedule 48 (rev M))))) of
        ((a0, b0, c0, d0, e0, f0, g0, h0), (a, b, c, d, e, f, g, h)) \<Rightarrow>
          (a0 + a, b0 + b, c0 + c, d0 + d, e0 + e, f0 + f, g0 + g, h0 + h))"

text \<open>Big-endian packing of the bytes into words; the padded message is a multiple of 4.\<close>
fun bytesToWords :: "byte list \<Rightarrow> u32 list" where
  "bytesToWords (b0 # b1 # b2 # b3 # bs) =
     (push_bit 24 (ucast b0) OR push_bit 16 (ucast b1) OR push_bit 8 (ucast b2) OR ucast b3)
       # bytesToWords bs"
| "bytesToWords _ = []"

text \<open>
  \<^verbatim>\<open>_doFinalize\<close>: a 1 bit, zeros up to 56 modulo 64 bytes, then the bit length in 64
  bits.
\<close>
definition pad :: "byte list \<Rightarrow> byte list" where
  "pad m = (let n = length m; k = (119 - n mod 64) mod 64; l = (of_nat (8 * n) :: 64 word)
     in m @ [0x80] @ replicate k 0 @ map (\<lambda>i. ucast (drop_bit (8 * (7 - i)) l)) [0..<8])"

fun blocks16 :: "nat \<Rightarrow> u32 list \<Rightarrow> u32 list list" where
  "blocks16 0 ws = []"
| "blocks16 (Suc n) ws = take 16 ws # blocks16 n (drop 16 ws)"

definition SHA256_bytes :: "byte list \<Rightarrow> hstate" where
  "SHA256_bytes m =
     (let ws = bytesToWords (pad m)
      in foldl doProcessBlock H_init (blocks16 (length ws div 16) ws))"

text \<open>
  \<^verbatim>\<open>Utf8.parse\<close>, which crypto-js applies to a string argument: a code unit below 128
  is one byte, one from 128 to 255 is two.
\<close>
definition Utf8_parse :: "string \<Rightarrow> byte list" where
  "Utf8_parse s = concat (map (\<lambda>c. let n = (of_char c :: nat) in
      if n < 128 then [of_nat n] else [of_nat (192 + n div 64), of_nat (128 + n mod 64)]) s)"

definition SHA256 :: "string \<Rightarrow> hstate" where
  "SHA256 s = SHA256_bytes (Utf8_parse s)"

definition hexDigit :: "nat \<Rightarrow> char" where
  "hexDigit n = ''0123456789abcdef'' ! n"

text \<open>\<^verbatim>\<open>(bite >>> 4).toString(16)\<close> and \<^verbatim>\<open>(bite & 0x0f).toString(16)\<close>\<close>
definition hexByte :: "byte \<Rightarrow> string" where
  "hexByte b = [hexDigit (unat (drop_bit 4 b)), hexDigit (unat (b AND 0x0f))]"

definition wordBytes :: "u32 \<Rightarrow> byte list" where
  "wordBytes w = map (\<lambda>i. ucast (drop_bit (24 - 8 * i) w)) [0..<4]"

text \<open>\<^verbatim>\<open>WordArray.toString()\<close>, whose default encoder is Hex, on the 32 bytes of a digest.\<close>
definition toString :: "hstate \<Rightarrow> string" where
  "toString H = (case H of (a, b, c, d, e, f, g, h) \<Rightarrow>
     concat (map hexByte (concat (map wordBytes [a, b, c, d, e, f, g, h]))))"

subsection \<open>JSON.stringify\<close>

text \<open>
  The values a Firestore document holds. \<open>JObj\<close> lists an object's own properties in
  the order JavaScript enumerates them. \<open>JNum n\<close> stands for the JavaScript number \<open>n\<close>
  where \<open>n\<close> is a safe integer, of magnitude below \<open>2\<^sup>5\<^sup>3\<close>: these are the numbers
  JavaScript prints digit for digit, and \<^verbatim>\<open>Date.now()\<close> (at most 8640000000000000 in
  magnitude) and the seconds and nanoseconds of a Firestore timestamp are among them. A
  number that is not an integer has no value in the model, and for an integer of magnitude
  \<open>2\<^sup>5\<^sup>3\<close> or more \<open>JSON_stringify\<close> need not be what JavaScript prints (which
  rounds to a double, and from \<open>10\<^sup>2\<^sup>1\<close> on uses an exponent).
\<close>
datatype json =
    JNull
  | JBool bool
  | JNum int
  | JStr string
  | JArr "json list"
  | JObj "(string \<times> json) list"

function digits :: "nat \<Rightarrow> string" where
  "digits n = (if n < 10 then [hexDigit n] else digits (n div 10) @ [hexDigit (n mod 10)])"
  by pat_completeness auto
termination
  by (relation "measure id") auto

declare digits.simps [simp del]

text \<open>
  The decimal digits of an integer, with a minus sign below zero: JavaScript's
  Number-to-string on a safe integer.
\<close>
definition showInt :: "int \<Rightarrow> string" where
  "showInt i = (if i < 0 then ''-'' @ digits (nat (- i)) else digits (nat i))"

text \<open>
  \<^verbatim>\<open>QuoteJSONString\<close>: the quote (0x22) and the backslash (0x5C) are escaped with a
  backslash, the control characters below 0x20 by their short form or \<^verbatim>\<open>\u00XX\<close>.
\<close>
definition escapeChar :: "char \<Rightarrow> string" where
  "escapeChar c = (let n = (of_char c :: nat) in
     if n = 0x22 then [CHR 0x5C, CHR 0x22]
     else if n = 0x5C then [CHR 0x5C, CHR 0x5C]
     else if n = 0x08 then [CHR 0x5C, CHR ''b'']
     else if n = 0x09 then [CHR 0x5C, CHR ''t'']
     else if n = 0x0A then [CHR 0x5C, CHR ''n'']
     else if n = 0x0C then [CHR 0x5C, CHR ''f'']
     else if n = 0x0D then [CHR 0x5C, CHR ''r'']
     else if n < 0x20 then [CHR 0x5C, CHR ''u'', CHR ''0'', CHR ''0'', hexDigit (n div 16), hexDigit (n mod 16)]
     else [c])"

definition quoteJSON :: "string \<Rightarrow> string" where
  "quoteJSON s = [CHR 0x22] @ concat (map escapeChar s) @ [CHR 0x22]"

fun commaJoin :: "string list \<Rightarrow> string" where
  "commaJoin [] = []"
| "commaJoin [s] = s"
| "commaJoin (s # t # ss) = s @ '','' @ commaJoin (t # ss)"

fun JSON_stringify :: "json \<Rightarrow> string" where
  "JSON_stringify JNull = ''null''"
| "JSON_stringify (JBool b) = (if b then ''true'' else ''false'')"
| "JSON_stringify (JNum n) = showInt n"
| "JSON_stringify (JStr s) = quoteJSON s"
| "JSON_stringify (JArr xs) = ''['' @ commaJoin (map JSON_stringify xs) @ '']''"
| "JSON_stringify (JObj kvs) =
     ''{'' @ commaJoin (map (\<lambda>kv. quoteJSON (fst kv) @ '':'' @ JSON_stringify (snd kv)) kvs) @ ''}''"

subsection \<open>The blockchain collection\<close>

text \<open>
  A stored block: the three properties of the object literal of lines 48-52 and the
  \<^verbatim>\<open>hash\<close> property that line 55 adds to it. \<^verbatim>\<open>timestamp\<close> is \<^verbatim>\<open>Date.now()\<close>, in
  milliseconds.
\<close>
record block =
  timestamp :: int
  activity :: json
  previousHash :: string
  hash :: string

text \<open>A document of the collection: its id and its data.\<close>
type_synonym doc = "string \<times> block"

text \<open>The rejection of a Firestore request.\<close>
datatype error = FirestoreError string

text \<open>
  \<^verbatim>\<open>orderBy("timestamp", "asc")\<close> (the Dashboard's chain listing) and
  \<^verbatim>\<open>orderBy("timestamp", "desc")\<close> (line 34). Firestore orders documents with equal
  field values by document id, in the direction of the query.
\<close>
definition orderBy_timestamp_asc :: "doc list \<Rightarrow> doc list" where
  "orderBy_timestamp_asc ds = sort_key (\<lambda>d. (timestamp (snd d), fst d)) ds"

definition orderBy_timestamp_desc :: "doc list \<Rightarrow> doc list" where
  "orderBy_timestamp_desc ds = rev (orderBy_timestamp_asc ds)"

definition limit :: "nat \<Rightarrow> 'a list \<Rightarrow> 'a list" where
  "limit n ds = take n ds"

text \<open>
  What the surroundings decide during one call of \<^verbatim>\<open>createNewBlock\<close>: whether the query
  and the add are rejected, the reading of the clock, and the id Firestore generates for
  the added document.
\<close>
record env =
  queryOutcome :: "error option"
  now :: int
  autoId :: string
  addOutcome :: "error option"

text \<open>\<^verbatim>\<open>add\<close> creates the document: it is rejected when the id exists.\<close>
definition addRejection :: "env \<Rightarrow> doc list \<Rightarrow> error option" where
  "addRejection e ds =
     (case addOutcome e of
        Some err \<Rightarrow> Some err
      | None \<Rightarrow> if autoId e \<in> fst ` set ds then Some (FirestoreError ''ALREADY_EXISTS'') else None)"

definition collection_add :: "env \<Rightarrow> block \<Rightarrow> doc list \<Rightarrow> error + doc list" where
  "collection_add e b ds =
     (case addRejection e ds of
        Some err \<Rightarrow> Inl err
      | None \<Rightarrow> Inr (ds @ [(autoId e, b)]))"

subsection \<open>createNewBlock (lines 28-64)\<close>

text \<open>The lines the script prints, and the requests it sends to the blockchain collection.\<close>
datatype message =
    NewActivityDetected
  | LastBlockFound string
  | FirstBlockGenesis
  | NewBlockCreated string
  | BlockAdded
  | ErrorCreatingBlock error
  | WatchingForActivities

datatype request = QueryLatest | AddBlock block

record world =
  blockchain :: "doc list"
  console :: "message list"
  requests :: "request list"

definition log :: "message \<Rightarrow> world \<Rightarrow> world" where
  "log m w = w\<lparr>console := console w @ [m]\<rparr>"

definition send :: "request \<Rightarrow> world \<Rightarrow> world" where
  "send r w = w\<lparr>requests := requests w @ [r]\<rparr>"

text \<open>The object literal of lines 48-52, before line 55 gives it a hash.\<close>
definition newBlockObject :: "int \<Rightarrow> json \<Rightarrow> string \<Rightarrow> json" where
  "newBlockObject ts newActivityData prevHash =
     JObj [(''timestamp'', JNum ts), (''activity'', newActivityData),
           (''previousHash'', JStr prevHash)]"

text \<open>Line 54.\<close>
definition blockHash :: "int \<Rightarrow> json \<Rightarrow> string \<Rightarrow> string" where
  "blockHash ts newActivityData prevHash =
     toString (SHA256 (JSON_stringify (newBlockObject ts newActivityData prevHash)))"

text \<open>
  The function is asynchronous: it runs to its first \<^verbatim>\<open>await\<close>, is resumed when the
  query settles, and again when the add settles. Lines 29-36: it prints, sends the query
  and waits.
\<close>
definition createNewBlock_begin :: "world \<Rightarrow> world" where
  "createNewBlock_begin w = send QueryLatest (log NewActivityDetected w)"

text \<open>
  Lines 33-58, when the query settles: a rejected query raises; otherwise the block is
  built on the answer, the clock being read at line 49, and its add is sent. The result
  is the block whose add is awaited, or the error raised in the \<^verbatim>\<open>try\<close>.
\<close>
definition createNewBlock_link :: "env \<Rightarrow> json \<Rightarrow> world \<Rightarrow> world \<times> (error + block)" where
  "createNewBlock_link e newActivityData w =
     (case queryOutcome e of
        Some err \<Rightarrow> (w, Inl err)
      | None \<Rightarrow>
          let lastBlockQuery = limit 1 (orderBy_timestamp_desc (blockchain w));
              prevHash = (if lastBlockQuery \<noteq> [] then hash (snd (hd lastBlockQuery)) else ''0'');
              w1 = log (if lastBlockQuery \<noteq> [] then LastBlockFound (take 10 prevHash)
                        else FirstBlockGenesis) w;
              ts = now e;
              h = blockHash ts newActivityData prevHash;
              newBlock = \<lparr>timestamp = ts, activity = newActivityData,
                          previousHash = prevHash, hash = h\<rparr>
          in (send (AddBlock newBlock) (log (NewBlockCreated (take 10 h)) w1), Inr newBlock))"

text \<open>Lines 58-59, when the add settles, with the \<^verbatim>\<open>catch\<close> of lines 61-63.\<close>
definition createNewBlock_added :: "env \<Rightarrow> block \<Rightarrow> world \<Rightarrow> world" where
  "createNewBlock_added e newBlock w =
     (case collection_add e newBlock (blockchain w) of
        Inl err \<Rightarrow> log (ErrorCreatingBlock err) w
      | Inr ds \<Rightarrow> log BlockAdded (w\<lparr>blockchain := ds\<rparr>))"

text \<open>
  One call run from start to end with no other call in between. The second component is
  how the returned promise settles: \<open>None\<close> when it is fulfilled, the error when it is
  rejected.
\<close>
definition createNewBlock :: "env \<Rightarrow> json \<Rightarrow> world \<Rightarrow> world \<times> error option" where
  "createNewBlock e newActivityData w =
     (case createNewBlock_link e newActivityData (createNewBlock_begin w) of
        (w1, Inl err) \<Rightarrow> (log (ErrorCreatingBlock err) w1, None)
      | (w1, Inr newBlock) \<Rightarrow> (createNewBlock_added e newBlock w1, None))"

text \<open>Events handed to block creation one at a time, each call ending before the next.\<close>
fun processEvents :: "(env \<times> json) list \<Rightarrow> world \<Rightarrow> world" where
  "processEvents [] w = w"
| "processEvents (ev # evs) w = processEvents evs (fst (createNewBlock (fst ev) (snd ev) w))"

definition emptyWorld :: world where
  "emptyWorld = \<lparr>blockchain = [], console = [], requests = []\<rparr>"

subsection \<open>watchActivityLog (lines 69-88)\<close>

datatype changeType = added | modified | removed

text \<open>A document change: \<^verbatim>\<open>change.type\<close> and \<^verbatim>\<open>change.doc.data()\<close>.\<close>
record change =
  change_type :: changeType
  change_data :: json

text \<open>A call of \<^verbatim>\<open>createNewBlock\<close> that waits for its query, or for its add.\<close>
datatype call = AwaitingQuery json | AwaitingAdd block

type_synonym system = "world \<times> call list"

text \<open>Line 82: the call is made and not awaited, so it stays pending at its query.\<close>
definition startCall :: "json \<Rightarrow> system \<Rightarrow> system" where
  "startCall newActivity s = (createNewBlock_begin (fst s), snd s @ [AwaitingQuery newActivity])"

text \<open>The snapshot listener of lines 76-84, on the changes of one snapshot.\<close>
definition onSnapshot :: "change list \<Rightarrow> system \<Rightarrow> system" where
  "onSnapshot docChanges s =
     foldl (\<lambda>s change. if change_type change = added then startCall (change_data change) s else s)
       s docChanges"

text \<open>
  Firestore's listener reports, in its first snapshot, every document that is in the
  collection when the listener attaches as a change of type \<^verbatim>\<open>added\<close>.
\<close>
definition firstSnapshot :: "json list \<Rightarrow> change list" where
  "firstSnapshot activityLogs = map (\<lambda>d. \<lparr>change_type = added, change_data = d\<rparr>) activityLogs"

definition watchActivityLog :: "json list \<Rightarrow> system \<Rightarrow> system" where
  "watchActivityLog activityLogs s =
     onSnapshot (firstSnapshot activityLogs) (log WatchingForActivities (fst s), snd s)"

text \<open>One pending call is resumed: its query settles, or its add settles.\<close>
inductive resume :: "system \<Rightarrow> system \<Rightarrow> bool" where
  query_raised:
    "createNewBlock_link e a w = (w', Inl err) \<Longrightarrow>
     resume (w, cs @ AwaitingQuery a # cs') (log (ErrorCreatingBlock err) w', cs @ cs')"
| query_answered:
    "createNewBlock_link e a w = (w', Inr b) \<Longrightarrow>
     resume (w, cs @ AwaitingQuery a # cs') (w', cs @ AwaitingAdd b # cs')"
| add_settled:
    "resume (w, cs @ AwaitingAdd b # cs') (createNewBlock_added e b w, cs @ cs')"

subsection \<open>clearCollection (lines 91-114)\<close>

text \<open>
  The requests the function sends: \<^verbatim>\<open>limit(500).get()\<close>, with the number of documents
  it returned, and \<^verbatim>\<open>batch.commit()\<close>, with the number of deletes in the batch.
\<close>
datatype operation = GetPage nat | CommitBatch nat

datatype clearMessage = CollectionAlreadyEmpty | ClearedDocuments nat

text \<open>
  The collection as the list of its documents in the order of the query, the requests
  sent so far, the lines printed, and the error a rejected request raised out of the
  function.
\<close>
record 'a clearing =
  remaining :: "'a list"
  operations :: "operation list"
  printed :: "clearMessage list"
  raised :: "error option"

text \<open>
  \<open>rejects k\<close> tells whether the request sent after \<open>k\<close> accepted ones is rejected. A
  rejected request raises out of the function, which has no handler.
\<close>
function clearCollection :: "(nat \<Rightarrow> error option) \<Rightarrow> 'a clearing \<Rightarrow> 'a clearing" where
  "clearCollection rejects st =
     (case rejects (length (operations st)) of
        Some err \<Rightarrow> st\<lparr>raised := Some err\<rparr>
      | None \<Rightarrow>
          let snapshot = limit 500 (remaining st);
              st1 = st\<lparr>operations := operations st @ [GetPage (length snapshot)]\<rparr>
          in if snapshot = [] then st1\<lparr>printed := printed st1 @ [CollectionAlreadyEmpty]\<rparr>
             else (case rejects (length (operations st1)) of
                     Some err \<Rightarrow> st1\<lparr>raised := Some err\<rparr>
                   | None \<Rightarrow>
                       let st2 = st1\<lparr>remaining := filter (\<lambda>d. d \<notin> set snapshot) (remaining st1),
                                     operations := operations st1 @ [CommitBatch (length snapshot)],
                                     printed := printed st1 @ [ClearedDocuments (length snapshot)]\<rparr>
                       in if length snapshot = 500 then clearCollection rejects st2 else st2))"
  by pat_completeness auto
termination
proof (relation "measure (\<lambda>(rejects, st). length (remaining st))")
  show "wf (measure (\<lambda>(rejects, st). length (remaining st)))" by simp
next
  fix rejects :: "nat \<Rightarrow> error option" and st :: "'a clearing" and snapshot st1 st2
  assume snap: "snapshot = limit 500 (remaining st)" and ne: "snapshot \<noteq> []"
    and st1: "st1 = st\<lparr>operations := operations st @ [GetPage (length snapshot)]\<rparr>"
    and st2: "st2 = st1\<lparr>remaining := filter (\<lambda>d. d \<notin> set snapshot) (remaining st1),
                       operations := operations st1 @ [CommitBatch (length snapshot)],
                       printed := printed st1 @ [ClearedDocuments (length snapshot)]\<rparr>"
  from ne have "hd snapshot \<in> set snapshot" by simp
  moreover have "set snapshot \<subseteq> set (remaining st)"
    by (simp add: snap limit_def set_take_subset)
  ultimately have "length (filter (\<lambda>d. d \<notin> set snapshot) (remaining st)) < length (remaining st)"
    by (intro length_filter_less [of "hd snapshot"]) auto
  then show "((rejects, st2), (rejects, st)) \<in> measure (\<lambda>(rejects, st). length (remaining st))"
    by (simp add: st1 st2)
qed

declare clearCollection.simps [simp del]

definition startClearing :: "'a list \<Rightarrow> 'a clearing" where
  "startClearing docs = \<lparr>remaining = docs, operations = [], printed = [], raised = None\<rparr>"

definition noRejection :: "nat \<Rightarrow> error option" where
  "noRejection k = None"

subsection \<open>Dashboard: the current files derived from the activity log (lines 395-412)\<close>

text \<open>The properties of an activity log the derivation reads, and an entry of the file list.\<close>
record logEntry =
  log_id :: string
  log_action :: string
  log_fileName :: string
  log_timestamp :: int

record fileEntry =
  file_id :: string
  file_name :: string
  file_type :: string
  file_timestamp :: int

text \<open>\<^verbatim>\<open>String.prototype.split\<close> on a separator of one character.\<close>
fun split_str :: "char \<Rightarrow> string \<Rightarrow> string list" where
  "split_str sep [] = [[]]"
| "split_str sep (c # cs) =
     (if c = sep then [] # split_str sep cs
      else (case split_str sep cs of [] \<Rightarrow> [[c]] | s # ss \<Rightarrow> (c # s) # ss))"

text \<open>\<^verbatim>\<open>toLowerCase\<close> on a code unit below 256: A-Z and the capital letters of Latin-1.\<close>
definition toLowerCase_char :: "char \<Rightarrow> char" where
  "toLowerCase_char c = (let n = (of_char c :: nat) in
     if (65 \<le> n \<and> n \<le> 90) \<or> (192 \<le> n \<and> n \<le> 222 \<and> n \<noteq> 215) then char_of (n + 32) else c)"

definition getFileType :: "string \<Rightarrow> string" where
  "getFileType fileName =
     (let extension = map toLowerCase_char (last (split_str CHR ''.'' fileName))
      in if extension \<in> set [''jpg'', ''jpeg'', ''png'', ''gif''] then ''image''
         else if extension \<in> set [''pdf'', ''doc'', ''docx'', ''txt''] then ''doc''
         else ''generic'')"

text \<open>
  A JavaScript \<^verbatim>\<open>Map\<close> keeps its keys in insertion order: \<^verbatim>\<open>set\<close> on a present key
  replaces the value in place, on a new key appends; \<^verbatim>\<open>delete\<close> removes the key.
\<close>
fun Map_set :: "'k \<Rightarrow> 'v \<Rightarrow> ('k \<times> 'v) list \<Rightarrow> ('k \<times> 'v) list" where
  "Map_set k v [] = [(k, v)]"
| "Map_set k v (p # ps) = (if fst p = k then (k, v) # ps else p # Map_set k v ps)"

definition Map_delete :: "'k \<Rightarrow> ('k \<times> 'v) list \<Rightarrow> ('k \<times> 'v) list" where
  "Map_delete k ps = filter (\<lambda>p. fst p \<noteq> k) ps"

text \<open>The body of the \<^verbatim>\<open>forEach\<close> of lines 397-411.\<close>
definition applyLog :: "(string \<times> fileEntry) list \<Rightarrow> logEntry \<Rightarrow> (string \<times> fileEntry) list" where
  "applyLog fileMap l =
     (if take 11 (log_action l) = ''UPLOAD_FILE'' then
        Map_set (log_fileName l)
          \<lparr>file_id = log_id l, file_name = log_fileName l,
           file_type = getFileType (log_fileName l), file_timestamp = log_timestamp l\<rparr> fileMap
      else if log_action l = ''DELETE_FILE'' then Map_delete (log_fileName l) fileMap
      else fileMap)"

text \<open>Lines 396-412: \<^verbatim>\<open>Array.from(fileMap.values())\<close> after the loop.\<close>
definition deriveFiles :: "logEntry list \<Rightarrow> fileEntry list" where
  "deriveFiles allActivities = map snd (foldl applyLog [] allActivities)"

text \<open>
  The data of the activity document a log entry is read from, with the properties of an
  event that the derivation reads.
\<close>
definition eventData :: "logEntry \<Rightarrow> json" where
  "eventData l = JObj [(''action'', JStr (log_action l)), (''fileName'', JStr (log_fileName l)),
                       (''timestamp'', JNum (log_timestamp l))]"

subsection \<open>Chain verification\<close>

datatype reason = HashMismatch | LinkageMismatch | EmptyChain

datatype verificationResult = Valid | Invalid nat reason

text \<open>The digest recomputed from a stored block, as line 54 computes it.\<close>
definition recomputedHash :: "block \<Rightarrow> string" where
  "recomputedHash b = blockHash (timestamp b) (activity b) (previousHash b)"

text \<open>
  Modelled from the spec: the verification operation (spec section 4.4), which the source
  files do not contain. The scan goes through the chain in ascending order and stops at
  the first violation. At index 0 it rejects a previousHash other than \<open>''0''\<close> (the
  spec names no reason for this rejection; it is reported here as a linkage mismatch); at an
  index above 0 it compares previousHash with the hash of the block before; at every index
  it compares the recomputed digest with the stored hash. Section 4.4 does not fix the order
  of the two tests at one index; section 8 does: a previousHash swapped to an unrelated
  value, which changes the digest as well, is to be reported as a linkage mismatch, so
  previousHash is tested before the digest. \<open>prev\<close> is the hash of the block before
  index \<open>i\<close>.
\<close>
fun verifyFrom :: "nat \<Rightarrow> string \<Rightarrow> block list \<Rightarrow> verificationResult" where
  "verifyFrom i prev [] = Valid"
| "verifyFrom i prev (b # bs) =
     (if i = 0 \<and> previousHash b \<noteq> ''0'' then Invalid i LinkageMismatch
      else if 0 < i \<and> previousHash b \<noteq> prev then Invalid i LinkageMismatch
      else if recomputedHash b \<noteq> hash b then Invalid i HashMismatch
      else verifyFrom (Suc i) (hash b) bs)"

definition verify :: "block list \<Rightarrow> verificationResult" where
  "verify chain = verifyFrom 0 ''0'' chain"

subsection \<open>Auxiliary definitions\<close>

text \<open>What lines 38-42 make of the answer of the query, and the block of lines 48-55.\<close>
definition latestHash :: "doc list \<Rightarrow> string" where
  "latestHash ds =
     (if limit 1 (orderBy_timestamp_desc ds) \<noteq> []
      then hash (snd (hd (limit 1 (orderBy_timestamp_desc ds)))) else ''0'')"

definition linkedBlock :: "env \<Rightarrow> json \<Rightarrow> doc list \<Rightarrow> block" where
  "linkedBlock e a ds =
     \<lparr>timestamp = now e, activity = a, previousHash = latestHash ds,
      hash = blockHash (now e) a (latestHash ds)\<rparr>"

subsection \<open>Example values\<close>

text \<open>
  Two calls that nothing rejects, a minute apart, for an upload of \<^verbatim>\<open>a.txt\<close> and its
  deletion, and the blocks they make from an empty collection.
\<close>
definition env1 :: env where
  "env1 = \<lparr>queryOutcome = None, now = 1700000000000, autoId = ''b1'', addOutcome = None\<rparr>"

definition env2 :: env where
  "env2 = \<lparr>queryOutcome = None, now = 1700000060000, autoId = ''b2'', addOutcome = None\<rparr>"

definition uploadLog :: logEntry where
  "uploadLog = \<lparr>log_id = ''a1'', log_action = ''UPLOAD_FILE'', log_fileName = ''a.txt'',
                 log_timestamp = 1699999999000\<rparr>"

definition deleteLog :: logEntry where
  "deleteLog = \<lparr>log_id = ''a2'', log_action = ''DELETE_FILE'', log_fileName = ''a.txt'',
                 log_timestamp = 1700000059000\<rparr>"

definition block1 :: block where
  "block1 = \<lparr>timestamp = 1700000000000, activity = eventData uploadLog, previousHash = ''0'',
              hash = blockHash 1700000000000 (eventData uploadLog) ''0''\<rparr>"

definition block2 :: block where
  "block2 = \<lparr>timestamp = 1700000060000, activity = eventData deleteLog,
              previousHash = hash block1,
              hash = blockHash 1700000060000 (eventData deleteLog) (hash block1)\<rparr>"

definition world1 :: world where
  "world1 = fst (createNewBlock env1 (eventData uploadLog) emptyWorld)"

fun property :: "string \<Rightarrow> json \<Rightarrow> json option" where
  "property k (JObj kvs) = map_of kvs k"
| "property k _ = None"

definition envQueryFails :: env where
  "envQueryFails = \<lparr>queryOutcome = Some (FirestoreError ''UNAVAILABLE''), now = 1700000060000,
                     autoId = ''b2'', addOutcome = None\<rparr>"

definition envAddFails :: env where
  "envAddFails = \<lparr>queryOutcome = None, now = 1700000060000, autoId = ''b2'',
                   addOutcome = Some (FirestoreError ''DEADLINE_EXCEEDED'')\<rparr>"

definition accepting :: "int \<Rightarrow> string \<Rightarrow> env" where
  "accepting n i = \<lparr>queryOutcome = None, now = n, autoId = i, addOutcome = None\<rparr>"

definition uploadOf :: "string \<Rightarrow> int \<Rightarrow> logEntry" where
  "uploadOf i t = \<lparr>log_id = i, log_action = ''UPLOAD_FILE'', log_fileName = ''a.txt'',
                   log_timestamp = t\<rparr>"

definition deleteOf :: "string \<Rightarrow> int \<Rightarrow> logEntry" where
  "deleteOf i t = \<lparr>log_id = i, log_action = ''DELETE_FILE'', log_fileName = ''a.txt'',
                   log_timestamp = t\<rparr>"

definition blockX :: block where
  "blockX = \<lparr>timestamp = 1600000000000, activity = eventData deleteLog,
              previousHash = hash block1,
              hash = blockHash 1600000000000 (eventData deleteLog) (hash block1)\<rparr>"

definition rechained :: block where
  "rechained = \<lparr>timestamp = now env2, activity = eventData uploadLog, previousHash = hash block1,
                 hash = blockHash (now env2) (eventData uploadLog) (hash block1)\<rparr>"

definition restart0 :: system where
  "restart0 = watchActivityLog [eventData uploadLog] (world1, [])"

definition restart1 :: system where
  "restart1 = (fst (createNewBlock_link env2 (eventData uploadLog) (fst restart0)),
               [AwaitingAdd rechained])"

definition restart2 :: system where
  "restart2 = (createNewBlock_added env2 rechained (fst restart1), [])"

text \<open>The chain as the Dashboard reads it (lines 415-417): the blocks by ascending timestamp.\<close>
definition listAll :: "doc list \<Rightarrow> block list" where
  "listAll ds = map snd (orderBy_timestamp_asc ds)"

text \<open>
  The invariant of the chain, by position: the first block has previousHash \<open>''0''\<close>, every
  later block has the hash of the block before as previousHash, and every hash is the
  digest of the block's own timestamp, activity and previousHash.
\<close>
definition chainLinked :: "block list \<Rightarrow> bool" where
  "chainLinked chain =
     (\<forall>k < length chain.
        previousHash (chain ! k) = (if k = 0 then ''0'' else hash (chain ! (k - 1))) \<and>
        hash (chain ! k) = recomputedHash (chain ! k))"

text \<open>The same, along the list, from the hash \<open>p\<close> the first block has to name.\<close>
fun linkedFrom :: "string \<Rightarrow> block list \<Rightarrow> bool" where
  "linkedFrom p [] = True"
| "linkedFrom p (b # bs) =
     (previousHash b = p \<and> hash b = recomputedHash b \<and> linkedFrom (hash b) bs)"

text \<open>The sentinel is the previousHash of the first document only.\<close>
definition sentinelOnlyFirst :: "doc list \<Rightarrow> bool" where
  "sentinelOnlyFirst ds = (\<forall>k < length ds. previousHash (snd (ds ! k)) = ''0'' \<longleftrightarrow> k = 0)"

definition stepBack1 :: block where
  "stepBack1 = \<lparr>timestamp = 1700000060000, activity = eventData uploadLog, previousHash = ''0'',
                 hash = blockHash 1700000060000 (eventData uploadLog) ''0''\<rparr>"

definition stepBack2 :: block where
  "stepBack2 = \<lparr>timestamp = 1700000000000, activity = eventData deleteLog,
                 previousHash = hash stepBack1,
                 hash = blockHash 1700000000000 (eventData deleteLog) (hash stepBack1)\<rparr>"

definition stepBackWorld :: world where
  "stepBackWorld = processEvents [(accepting 1700000060000 ''b1'', eventData uploadLog),
                                  (accepting 1700000000000 ''b2'', eventData deleteLog)] emptyWorld"

definition twoAdded :: "change list" where
  "twoAdded = [\<lparr>change_type = added, change_data = eventData uploadLog\<rparr>,
               \<lparr>change_type = added, change_data = eventData deleteLog\<rparr>]"

definition genesis2 :: block where
  "genesis2 = \<lparr>timestamp = now env2, activity = eventData deleteLog, previousHash = ''0'',
                hash = blockHash (now env2) (eventData deleteLog) ''0''\<rparr>"

definition both0 :: system where
  "both0 = onSnapshot twoAdded (emptyWorld, [])"

definition both1 :: system where
  "both1 = (fst (createNewBlock_link env1 (eventData uploadLog) (fst both0)),
            [AwaitingAdd block1, AwaitingQuery (eventData deleteLog)])"

definition both2 :: system where
  "both2 = (fst (createNewBlock_link env2 (eventData deleteLog) (fst both1)),
            [AwaitingAdd block1, AwaitingAdd genesis2])"

definition both3 :: system where
  "both3 = (createNewBlock_added env1 block1 (fst both2), [AwaitingAdd genesis2])"

definition both4 :: system where
  "both4 = (createNewBlock_added env2 genesis2 (fst both3), [])"

text \<open>
  The two violations at position \<open>k\<close> of a chain: the block does not name the hash of the
  block before (the sentinel, for the first block), and the stored hash is not the
  recomputed digest. \<open>reasonAt\<close> is the reason the scan gives at a violated position, in
  the order of its tests.
\<close>
definition linkBroken :: "block list \<Rightarrow> nat \<Rightarrow> bool" where
  "linkBroken chain k =
     (previousHash (chain ! k) \<noteq> (if k = 0 then ''0'' else hash (chain ! (k - 1))))"

definition hashBroken :: "block list \<Rightarrow> nat \<Rightarrow> bool" where
  "hashBroken chain k = (recomputedHash (chain ! k) \<noteq> hash (chain ! k))"

definition violated :: "block list \<Rightarrow> nat \<Rightarrow> bool" where
  "violated chain k = (linkBroken chain k \<or> hashBroken chain k)"

definition reasonAt :: "block list \<Rightarrow> nat \<Rightarrow> reason" where
  "reasonAt chain k = (if linkBroken chain k then LinkageMismatch else HashMismatch)"

text \<open>The same for the rest \<open>bs\<close> of a chain after \<open>n\<close> blocks, the last with hash \<open>p\<close>.\<close>
definition linkBrokenFrom :: "nat \<Rightarrow> string \<Rightarrow> block list \<Rightarrow> nat \<Rightarrow> bool" where
  "linkBrokenFrom n p bs j =
     (previousHash (bs ! j) \<noteq>
        (if j = 0 then (if n = 0 then ''0'' else p) else hash (bs ! (j - 1))))"

definition violatedFrom :: "nat \<Rightarrow> string \<Rightarrow> block list \<Rightarrow> nat \<Rightarrow> bool" where
  "violatedFrom n p bs j = (linkBrokenFrom n p bs j \<or> hashBroken bs j)"

definition reasonFrom :: "nat \<Rightarrow> string \<Rightarrow> block list \<Rightarrow> nat \<Rightarrow> reason" where
  "reasonFrom n p bs j = (if linkBrokenFrom n p bs j then LinkageMismatch else HashMismatch)"




section \<open>Properties\<close>

subsection \<open>The digest\<close>

lemma hstate_cases:
  obtains a b c d e f g h where "(H :: hstate) = (a, b, c, d, e, f, g, h)"
  by (cases H rule: prod_cases7) (metis surj_pair)

lemma length_hexByte: "length (hexByte b) = 2"
  by (simp add: hexByte_def)

lemma length_wordBytes: "length (wordBytes w) = 4"
  by (simp add: wordBytes_def)

lemma length_concat_hexByte: "length (concat (map hexByte bs)) = 2 * length bs"
  by (induction bs) (simp_all add: length_hexByte)

lemma length_toString: "length (toString H) = 64"
  by (cases H rule: hstate_cases) (simp add: toString_def length_concat_hexByte length_wordBytes)

lemma hexDigit_range: "n < 16 \<Longrightarrow> hexDigit n \<in> set ''0123456789abcdef''"
  unfolding hexDigit_def by (rule nth_mem) simp

lemma high_nibble: "unat (drop_bit 4 (b :: byte)) < 16"
proof -
  have "unat (drop_bit 4 b) = unat b div 2 ^ 4"
    unfolding unat_drop_bit_eq by (simp add: drop_bit_eq_div)
  moreover have "unat b < 2 ^ 8"
    using unsigned_less [of b, where ?'a = nat] by simp
  ultimately show ?thesis by simp
qed

lemma low_nibble: "unat ((b :: byte) AND 0x0f) < 16"
proof -
  have "unat (b AND 15) \<le> unat (15 :: byte)"
    by (rule word_and_le1 [THEN word_le_nat_alt [THEN iffD1]])
  then show ?thesis by simp
qed

lemma set_hexByte: "set (hexByte b) \<subseteq> set ''0123456789abcdef''"
  using hexDigit_range [OF high_nibble [of b]] hexDigit_range [OF low_nibble [of b]]
  by (simp add: hexByte_def)

lemma set_toString: "set (toString H) \<subseteq> set ''0123456789abcdef''"
proof -
  have "set (concat (map hexByte bs)) \<subseteq> set ''0123456789abcdef''" for bs
    using set_hexByte by (induction bs) auto
  then show ?thesis
    by (cases H rule: hstate_cases) (simp add: toString_def del: set_simps set_concat)
qed

lemma length_blockHash: "length (blockHash ts a p) = 64"
  by (simp add: blockHash_def length_toString)

lemma blockHash_not_sentinel: "blockHash ts a p \<noteq> ''0''"
  using length_blockHash [of ts a p] by auto

lemma orderBy_desc_Nil_iff [simp]: "orderBy_timestamp_desc ds = [] \<longleftrightarrow> ds = []"
proof -
  have "length (orderBy_timestamp_desc ds) = length ds"
    by (simp add: orderBy_timestamp_desc_def orderBy_timestamp_asc_def)
  then show ?thesis by (metis length_0_conv)
qed

lemma limit_Suc_Nil_iff [simp]: "limit (Suc n) xs = [] \<longleftrightarrow> xs = []"
  by (cases xs) (simp_all add: limit_def)

lemma limit1_empty: "limit 1 (orderBy_timestamp_desc ds) = [] \<longleftrightarrow> ds = []"
  by simp

lemma latestHash_Nil: "latestHash [] = ''0''"
  by (simp add: latestHash_def)

lemma createNewBlock_link_eq:
  "createNewBlock_link e a w =
     (case queryOutcome e of
        Some err \<Rightarrow> (w, Inl err)
      | None \<Rightarrow>
          (send (AddBlock (linkedBlock e a (blockchain w)))
             (log (NewBlockCreated (take 10 (hash (linkedBlock e a (blockchain w)))))
                (log (if blockchain w \<noteq> [] then LastBlockFound (take 10 (latestHash (blockchain w)))
                      else FirstBlockGenesis) w)),
           Inr (linkedBlock e a (blockchain w))))"
  by (simp add: createNewBlock_link_def linkedBlock_def latestHash_def Let_def
      split: option.splits)

lemma blockchain_log [simp]: "blockchain (log m w) = blockchain w"
  by (simp add: log_def)

lemma blockchain_send [simp]: "blockchain (send r w) = blockchain w"
  by (simp add: send_def)

lemma blockchain_begin [simp]: "blockchain (createNewBlock_begin w) = blockchain w"
  by (simp add: createNewBlock_begin_def)

lemma blockchain_createNewBlock:
  "blockchain (fst (createNewBlock e a w)) =
     (if queryOutcome e = None \<and> addRejection e (blockchain w) = None
      then blockchain w @ [(autoId e, linkedBlock e a (blockchain w))]
      else blockchain w)"
  by (auto simp: createNewBlock_def createNewBlock_link_eq createNewBlock_added_def
      collection_add_def split: option.splits)


subsection \<open>The latest-block query\<close>

lemma take1_rev: "xs \<noteq> [] \<Longrightarrow> take (Suc 0) (rev xs) = [last xs]"
  by (cases xs rule: rev_cases) simp_all

lemma sorted_map_last:
  assumes "sorted (map k xs)" and "x \<in> set xs"
  shows "k x \<le> k (last xs)"
proof -
  from assms(2) have ne: "xs \<noteq> []" by auto
  then have "xs = butlast xs @ [last xs]" by simp
  then have "sorted (map k (butlast xs) @ [k (last xs)])"
    using assms(1) by (metis list.simps(8,9) map_append)
  then have "\<forall>y \<in> set (butlast xs). k y \<le> k (last xs)"
    by (simp add: sorted_append)
  moreover from assms(2) ne have "x \<in> set (butlast xs) \<or> x = last xs"
    by (metis Un_iff append_butlast_last_id empty_iff insert_iff list.set(1,2) set_append)
  ultimately show ?thesis by auto
qed

lemma latest_query:
  assumes "ds \<noteq> []"
  shows "\<exists>d. limit 1 (orderBy_timestamp_desc ds) = [d] \<and> d \<in> set ds \<and>
             (\<forall>d' \<in> set ds. timestamp (snd d') \<le> timestamp (snd d))"
proof -
  let ?k = "\<lambda>d :: doc. (timestamp (snd d), fst d)"
  let ?xs = "sort_key ?k ds"
  from assms have ne: "?xs \<noteq> []" by (metis length_0_conv length_sort)
  have q: "limit 1 (orderBy_timestamp_desc ds) = [last ?xs]"
    using ne by (simp add: limit_def orderBy_timestamp_desc_def orderBy_timestamp_asc_def take1_rev)
  have mem: "last ?xs \<in> set ds"
    using ne last_in_set [of ?xs] by simp
  have "timestamp (snd d') \<le> timestamp (snd (last ?xs))" if "d' \<in> set ds" for d'
  proof -
    have "?k d' \<le> ?k (last ?xs)"
      by (rule sorted_map_last) (simp_all add: that)
    then show ?thesis by (auto simp: less_eq_prod_def)
  qed
  with q mem show ?thesis by blast
qed

lemma world1_blockchain: "blockchain world1 = [(''b1'', block1)]"
  by (simp add: world1_def blockchain_createNewBlock env1_def emptyWorld_def addRejection_def
      linkedBlock_def latestHash_Nil block1_def)

subsection \<open>One block creation\<close>

text \<open>
  C1. Whenever a call of createNewBlock stores a block, the stored hash is the hex encoding
  of the SHA-256 digest of the serialization of the object with exactly the properties
  timestamp, activity and previousHash of that block, in this order: the serialization
  reads \<^verbatim>\<open>{"timestamp":..,"activity":..,"previousHash":..}\<close>. The hash is no part of
  what is digested; it is put into the block after the digest is computed.
\<close>
theorem createNewBlock_hash_of_three_fields:
  assumes "blockchain (fst (createNewBlock e a w)) = blockchain w @ [(i, b)]"
  shows "hash b = toString (SHA256 (JSON_stringify
           (JObj [(''timestamp'', JNum (timestamp b)), (''activity'', activity b),
                  (''previousHash'', JStr (previousHash b))])))
       \<and> JSON_stringify
           (JObj [(''timestamp'', JNum (timestamp b)), (''activity'', activity b),
                  (''previousHash'', JStr (previousHash b))])
         = ''{'' @ quoteJSON ''timestamp'' @ '':'' @ showInt (timestamp b) @ '','' @
           quoteJSON ''activity'' @ '':'' @ JSON_stringify (activity b) @ '','' @
           quoteJSON ''previousHash'' @ '':'' @ quoteJSON (previousHash b) @ ''}''"
proof -
  from assms have "b = linkedBlock e a (blockchain w)"
    by (simp add: blockchain_createNewBlock split: if_splits)
  then show ?thesis
    by (simp add: linkedBlock_def blockHash_def newBlockObject_def)
qed


theorem createNewBlock_hash_of_three_fields_witness:
  "blockchain (fst (createNewBlock env1 (eventData uploadLog) emptyWorld))
     = blockchain emptyWorld @ [(''b1'', block1)]
   \<and> hash block1 = toString (SHA256 (JSON_stringify
        (JObj [(''timestamp'', JNum (timestamp block1)), (''activity'', activity block1),
               (''previousHash'', JStr (previousHash block1))])))"
proof -
  have h: "blockchain (fst (createNewBlock env1 (eventData uploadLog) emptyWorld))
             = blockchain emptyWorld @ [(''b1'', block1)]"
    using world1_blockchain by (simp add: world1_def emptyWorld_def)
  show ?thesis
    using h createNewBlock_hash_of_three_fields [OF h] by simp
qed

text \<open>
  C3. Whenever a call of createNewBlock stores a block: if the collection was empty, the
  block's previousHash is \<open>''0''\<close>; otherwise the descending-by-timestamp query
  limited to one returns exactly one stored document, no stored block has a greater
  timestamp than it, and the new block's previousHash is its hash.
\<close>
theorem createNewBlock_previousHash:
  assumes "blockchain (fst (createNewBlock e a w)) = blockchain w @ [(i, b)]"
  shows "(blockchain w = [] \<longrightarrow> previousHash b = ''0'') \<and>
         (blockchain w \<noteq> [] \<longrightarrow>
            (\<exists>d. limit 1 (orderBy_timestamp_desc (blockchain w)) = [d] \<and> d \<in> set (blockchain w) \<and>
                 (\<forall>d' \<in> set (blockchain w). timestamp (snd d') \<le> timestamp (snd d)) \<and>
                 previousHash b = hash (snd d)))"
proof -
  from assms have b: "b = linkedBlock e a (blockchain w)"
    by (simp add: blockchain_createNewBlock split: if_splits)
  show ?thesis
  proof (intro conjI impI)
    assume "blockchain w = []"
    then show "previousHash b = ''0''" by (simp add: b linkedBlock_def latestHash_Nil)
  next
    assume ne: "blockchain w \<noteq> []"
    from latest_query [OF ne] obtain d where d:
      "limit 1 (orderBy_timestamp_desc (blockchain w)) = [d]" "d \<in> set (blockchain w)"
      "\<forall>d' \<in> set (blockchain w). timestamp (snd d') \<le> timestamp (snd d)"
      by blast
    then have "previousHash b = hash (snd d)"
      by (simp add: b linkedBlock_def latestHash_def)
    with d show "\<exists>d. limit 1 (orderBy_timestamp_desc (blockchain w)) = [d] \<and> d \<in> set (blockchain w) \<and>
                 (\<forall>d' \<in> set (blockchain w). timestamp (snd d') \<le> timestamp (snd d)) \<and>
                 previousHash b = hash (snd d)"
      by blast
  qed
qed


lemma orderBy_desc_single [simp]: "orderBy_timestamp_desc [d] = [d]"
  by (simp add: orderBy_timestamp_desc_def orderBy_timestamp_asc_def)

lemma latestHash_single [simp]: "latestHash [d] = hash (snd d)"
  by (simp add: latestHash_def limit_def)

lemma world2_blockchain:
  "blockchain (fst (createNewBlock env2 (eventData deleteLog) world1))
     = blockchain world1 @ [(''b2'', block2)]"
  by (simp add: blockchain_createNewBlock world1_blockchain env2_def addRejection_def
      linkedBlock_def block2_def)

theorem createNewBlock_previousHash_witness:
  "(blockchain (fst (createNewBlock env1 (eventData uploadLog) emptyWorld))
      = blockchain emptyWorld @ [(''b1'', block1)]
    \<and> blockchain emptyWorld = [] \<and> previousHash block1 = ''0'')
   \<and> (blockchain (fst (createNewBlock env2 (eventData deleteLog) world1))
      = blockchain world1 @ [(''b2'', block2)]
    \<and> blockchain world1 \<noteq> []
    \<and> (\<exists>d. limit 1 (orderBy_timestamp_desc (blockchain world1)) = [d] \<and> d \<in> set (blockchain world1) \<and>
             (\<forall>d' \<in> set (blockchain world1). timestamp (snd d') \<le> timestamp (snd d)) \<and>
             previousHash block2 = hash (snd d)))"
proof -
  have h1: "blockchain (fst (createNewBlock env1 (eventData uploadLog) emptyWorld))
              = blockchain emptyWorld @ [(''b1'', block1)]"
    using world1_blockchain by (simp add: world1_def emptyWorld_def)
  have e: "blockchain emptyWorld = []" by (simp add: emptyWorld_def)
  have n: "blockchain world1 \<noteq> []" by (simp add: world1_blockchain)
  show ?thesis
    using createNewBlock_previousHash [OF h1] createNewBlock_previousHash [OF world2_blockchain]
      h1 world2_blockchain e n
    by simp
qed

text \<open>
  C6. When the query or the add of a call of createNewBlock is rejected, the collection is
  left as it was (no block is stored for the event), the last line the call prints is the
  error, the line of a successful add is not printed, the promise of the call is fulfilled
  (the error does not leave the function), and the call has sent the query once and the
  add at most once: nothing is tried again.
\<close>
theorem createNewBlock_failure_is_logged_and_dropped:
  assumes "queryOutcome e = Some err \<or>
           (queryOutcome e = None \<and> addRejection e (blockchain w) = Some err)"
  shows "blockchain (fst (createNewBlock e a w)) = blockchain w
       \<and> last (console (fst (createNewBlock e a w))) = ErrorCreatingBlock err
       \<and> BlockAdded \<notin> set (drop (length (console w)) (console (fst (createNewBlock e a w))))
       \<and> snd (createNewBlock e a w) = None
       \<and> (requests (fst (createNewBlock e a w)) = requests w @ [QueryLatest]
          \<or> (\<exists>b. requests (fst (createNewBlock e a w)) = requests w @ [QueryLatest, AddBlock b]))"
  using assms
  by (auto simp: createNewBlock_def createNewBlock_link_eq createNewBlock_added_def
      createNewBlock_begin_def collection_add_def log_def send_def split: option.splits)

theorem createNewBlock_failure_is_logged_and_dropped_witness:
  "(queryOutcome envQueryFails = Some (FirestoreError ''UNAVAILABLE'')
    \<and> blockchain (fst (createNewBlock envQueryFails (eventData deleteLog) world1)) = blockchain world1
    \<and> last (console (fst (createNewBlock envQueryFails (eventData deleteLog) world1)))
        = ErrorCreatingBlock (FirestoreError ''UNAVAILABLE''))
   \<and> (queryOutcome envAddFails = None
    \<and> addRejection envAddFails (blockchain world1) = Some (FirestoreError ''DEADLINE_EXCEEDED'')
    \<and> blockchain (fst (createNewBlock envAddFails (eventData deleteLog) world1)) = blockchain world1
    \<and> last (console (fst (createNewBlock envAddFails (eventData deleteLog) world1)))
        = ErrorCreatingBlock (FirestoreError ''DEADLINE_EXCEEDED''))"
proof -
  have q: "queryOutcome envQueryFails = Some (FirestoreError ''UNAVAILABLE'')"
    by (simp add: envQueryFails_def)
  have a: "queryOutcome envAddFails = None \<and>
           addRejection envAddFails (blockchain world1) = Some (FirestoreError ''DEADLINE_EXCEEDED'')"
    by (simp add: envAddFails_def addRejection_def)
  show ?thesis
    using q a
      createNewBlock_failure_is_logged_and_dropped
        [of envQueryFails "FirestoreError ''UNAVAILABLE''" world1 "eventData deleteLog"]
      createNewBlock_failure_is_logged_and_dropped
        [of envAddFails "FirestoreError ''DEADLINE_EXCEEDED''" world1 "eventData deleteLog"]
    by simp
qed

lemma filter_not_in_take:
  assumes "distinct xs"
  shows "filter (\<lambda>d. d \<notin> set (take n xs)) xs = drop n xs"
proof -
  let ?P = "\<lambda>d. d \<notin> set (take n xs)"
  have d: "distinct (take n xs @ drop n xs)" using assms by simp
  then have disj: "set (take n xs) \<inter> set (drop n xs) = {}" by (simp only: distinct_append)
  have "filter ?P xs = filter ?P (take n xs @ drop n xs)" by simp
  also have "\<dots> = filter ?P (take n xs) @ filter ?P (drop n xs)" by (simp only: filter_append)
  also have "filter ?P (take n xs) = []" by simp
  also have "filter ?P (drop n xs) = drop n xs"
    using disj by (intro filter_True) auto
  finally show ?thesis by simp
qed

lemma clearCollection_empty:
  "remaining st = [] \<Longrightarrow>
   clearCollection noRejection st
     = st\<lparr>operations := operations st @ [GetPage 0],
          printed := printed st @ [CollectionAlreadyEmpty]\<rparr>"
  by (subst clearCollection.simps) (simp add: noRejection_def limit_def)

lemma clearCollection_full_page:
  assumes "distinct (remaining st)" and "500 \<le> length (remaining st)"
  shows "clearCollection noRejection st
     = clearCollection noRejection
         (st\<lparr>remaining := drop 500 (remaining st),
             operations := operations st @ [GetPage 500, CommitBatch 500],
             printed := printed st @ [ClearedDocuments 500]\<rparr>)"
proof -
  have ne: "remaining st \<noteq> []" using assms(2) by auto
  have len: "length (take 500 (remaining st)) = 500" using assms(2) by simp
  show ?thesis
    by (subst clearCollection.simps)
       (simp add: noRejection_def limit_def Let_def ne len filter_not_in_take [OF assms(1)]
          del: length_take)
qed

lemma clearCollection_last_page:
  assumes "distinct (remaining st)" and "remaining st \<noteq> []" and "length (remaining st) < 500"
  shows "clearCollection noRejection st
     = st\<lparr>remaining := [],
          operations := operations st @ [GetPage (length (remaining st)),
                                         CommitBatch (length (remaining st))],
          printed := printed st @ [ClearedDocuments (length (remaining st))]\<rparr>"
proof -
  have t: "take 500 (remaining st) = remaining st" using assms(3) by simp
  show ?thesis
    using assms(2,3)
    by (subst clearCollection.simps) (simp add: noRejection_def limit_def Let_def t)
qed

text \<open>
  C7. With no request rejected, clearing a collection of exactly 1200 (distinct) documents
  sends three page reads and three batch commits, of 500, 500 and 200 documents, and
  leaves the collection empty; clearing an empty collection sends one page read, which
  returns nothing, and no batch commit, and deletes nothing.
\<close>
theorem clearCollection_1200_and_empty:
  "(length docs = 1200 \<and> distinct docs \<longrightarrow>
      clearCollection noRejection (startClearing docs)
        = \<lparr>remaining = [],
           operations = [GetPage 500, CommitBatch 500, GetPage 500, CommitBatch 500,
                         GetPage 200, CommitBatch 200],
           printed = [ClearedDocuments 500, ClearedDocuments 500, ClearedDocuments 200],
           raised = None\<rparr>)
   \<and> clearCollection noRejection (startClearing ([] :: 'a list))
        = \<lparr>remaining = [], operations = [GetPage 0], printed = [CollectionAlreadyEmpty],
           raised = None\<rparr>"
proof (intro conjI impI)
  assume a: "length docs = 1200 \<and> distinct docs"
  let ?s0 = "startClearing docs"
  let ?s1 = "?s0\<lparr>remaining := drop 500 docs,
                    operations := [GetPage 500, CommitBatch 500],
                    printed := [ClearedDocuments 500]\<rparr>"
  let ?s2 = "?s1\<lparr>remaining := drop 1000 docs,
                    operations := [GetPage 500, CommitBatch 500, GetPage 500, CommitBatch 500],
                    printed := [ClearedDocuments 500, ClearedDocuments 500]\<rparr>"
  have "clearCollection noRejection ?s0 = clearCollection noRejection ?s1"
    using a by (subst clearCollection_full_page) (simp_all add: startClearing_def)
  also have "\<dots> = clearCollection noRejection ?s2"
    using a by (subst clearCollection_full_page) (simp_all add: startClearing_def)
  also have "\<dots> = \<lparr>remaining = [],
           operations = [GetPage 500, CommitBatch 500, GetPage 500, CommitBatch 500,
                         GetPage 200, CommitBatch 200],
           printed = [ClearedDocuments 500, ClearedDocuments 500, ClearedDocuments 200],
           raised = None\<rparr>"
    using a by (subst clearCollection_last_page) (auto simp: startClearing_def)
  finally show "clearCollection noRejection (startClearing docs)
        = \<lparr>remaining = [],
           operations = [GetPage 500, CommitBatch 500, GetPage 500, CommitBatch 500,
                         GetPage 200, CommitBatch 200],
           printed = [ClearedDocuments 500, ClearedDocuments 500, ClearedDocuments 200],
           raised = None\<rparr>" .
next
  show "clearCollection noRejection (startClearing ([] :: 'a list))
        = \<lparr>remaining = [], operations = [GetPage 0], printed = [CollectionAlreadyEmpty],
           raised = None\<rparr>"
    by (subst clearCollection_empty) (simp_all add: startClearing_def)
qed

theorem clearCollection_1200_and_empty_witness:
  "length [0..<1200] = 1200 \<and> distinct [0..<1200]
   \<and> clearCollection noRejection (startClearing [0..<1200])
        = \<lparr>remaining = [],
           operations = [GetPage 500, CommitBatch 500, GetPage 500, CommitBatch 500,
                         GetPage 200, CommitBatch 200],
           printed = [ClearedDocuments 500, ClearedDocuments 500, ClearedDocuments 200],
           raised = None\<rparr>"
proof -
  have h: "length [0..<1200] = 1200 \<and> distinct [0..<1200]" by simp
  show ?thesis
    using h clearCollection_1200_and_empty [of "[0..<1200]"] by blast
qed

lemma tip_after_add:
  assumes "\<forall>d \<in> set ds. timestamp (snd d) < timestamp b"
  shows "limit 1 (orderBy_timestamp_desc (ds @ [(i, b)])) = [(i, b)]"
proof -
  from latest_query [of "ds @ [(i, b)]"] obtain d where d:
    "limit 1 (orderBy_timestamp_desc (ds @ [(i, b)])) = [d]" "d \<in> set (ds @ [(i, b)])"
    "\<forall>d' \<in> set (ds @ [(i, b)]). timestamp (snd d') \<le> timestamp (snd d)"
    by auto
  from d(3) have "timestamp b \<le> timestamp (snd d)" by simp
  with assms d(2) have "d = (i, b)" by fastforce
  with d(1) show ?thesis by simp
qed

lemma tip_not_new_block:
  assumes "d0 \<in> set ds" and "timestamp b < timestamp (snd d0)"
  shows "limit 1 (orderBy_timestamp_desc (ds @ [(i, b)])) \<noteq> [(i, b)]"
proof -
  from latest_query [of "ds @ [(i, b)]"] obtain d where d:
    "limit 1 (orderBy_timestamp_desc (ds @ [(i, b)])) = [d]"
    "\<forall>d' \<in> set (ds @ [(i, b)]). timestamp (snd d') \<le> timestamp (snd d)"
    by auto
  from d(2) assms(1) have "timestamp (snd d0) \<le> timestamp (snd d)" by simp
  with assms(2) have "d \<noteq> (i, b)" by auto
  with d(1) show ?thesis by simp
qed

text \<open>
  C9 (as amended). The timestamp property of a block's hashed content is the reading of the
  watcher's clock (\<^verbatim>\<open>Date.now()\<close>, line 49) when the block is built, whatever timestamp
  the event carries; the event's own timestamp is hashed only as part of the activity. The
  latest-block query sorts by this same stored property: a stored new block is the answer
  of the query when its clock reading is above every stored timestamp, and is not when some
  stored timestamp is above it. Hashing and tip ordering use one timestamp.
\<close>
theorem block_timestamp_is_clock_reading:
  assumes "blockchain (fst (createNewBlock e a w)) = blockchain w @ [(i, b)]"
  shows "timestamp b = now e
       \<and> hash b = toString (SHA256 (JSON_stringify (newBlockObject (now e) a (previousHash b))))
       \<and> property ''timestamp'' (newBlockObject (now e) a (previousHash b)) = Some (JNum (now e))
       \<and> ((\<forall>d \<in> set (blockchain w). timestamp (snd d) < now e) \<longrightarrow>
            limit 1 (orderBy_timestamp_desc (blockchain (fst (createNewBlock e a w)))) = [(i, b)])
       \<and> ((\<exists>d \<in> set (blockchain w). now e < timestamp (snd d)) \<longrightarrow>
            limit 1 (orderBy_timestamp_desc (blockchain (fst (createNewBlock e a w)))) \<noteq> [(i, b)])"
proof -
  from assms have b: "b = linkedBlock e a (blockchain w)"
    by (simp add: blockchain_createNewBlock split: if_splits)
  then have ts: "timestamp b = now e" by (simp add: linkedBlock_def)
  have "hash b = toString (SHA256 (JSON_stringify (newBlockObject (now e) a (previousHash b))))"
    by (simp add: b linkedBlock_def blockHash_def)
  moreover have "property ''timestamp'' (newBlockObject (now e) a (previousHash b)) = Some (JNum (now e))"
    by (simp add: newBlockObject_def)
  moreover have "limit 1 (orderBy_timestamp_desc (blockchain (fst (createNewBlock e a w)))) = [(i, b)]"
    if "\<forall>d \<in> set (blockchain w). timestamp (snd d) < now e"
    unfolding assms using that by (intro tip_after_add) (simp add: ts)
  moreover have "limit 1 (orderBy_timestamp_desc (blockchain (fst (createNewBlock e a w)))) \<noteq> [(i, b)]"
    if "\<exists>d \<in> set (blockchain w). now e < timestamp (snd d)"
    unfolding assms using that tip_not_new_block [of _ "blockchain w" b i] by (auto simp: ts)
  ultimately show ?thesis using ts by blast
qed

theorem block_timestamp_is_clock_reading_witness:
  "blockchain (fst (createNewBlock env2 (eventData deleteLog) world1))
     = blockchain world1 @ [(''b2'', block2)]
   \<and> blockchain world1 = [(''b1'', block1)] \<and> timestamp block1 < now env2
   \<and> timestamp block2 = now env2
   \<and> limit 1 (orderBy_timestamp_desc
        (blockchain (fst (createNewBlock env2 (eventData deleteLog) world1)))) = [(''b2'', block2)]"
proof -
  have lt: "\<forall>d \<in> set (blockchain world1). timestamp (snd d) < now env2"
    by (simp add: world1_blockchain block1_def env2_def)
  show ?thesis
    using block_timestamp_is_clock_reading [OF world2_blockchain] world2_blockchain lt
      world1_blockchain
    by (simp add: block1_def env2_def)
qed

text \<open>
  C9 as stated fails: the block made for the upload event, whose own timestamp is
  1699999999000, is hashed with the timestamp 1700000000000 of the clock, which is also its
  stored timestamp; and the query prefers this block to one with an earlier stored
  timestamp whose event is later.
\<close>
theorem hashed_timestamp_is_not_event_timestamp:
  "blockchain (fst (createNewBlock env1 (eventData uploadLog) emptyWorld)) = [(''b1'', block1)]
   \<and> hash block1 = toString (SHA256 (JSON_stringify
        (newBlockObject (timestamp block1) (activity block1) (previousHash block1))))
   \<and> property ''timestamp'' (newBlockObject (timestamp block1) (activity block1) (previousHash block1))
        = Some (JNum 1700000000000)
   \<and> property ''timestamp'' (eventData uploadLog) = Some (JNum 1699999999000)
   \<and> timestamp block1 = 1700000000000
   \<and> property ''timestamp'' (activity blockX) = Some (JNum 1700000059000)
   \<and> timestamp blockX = 1600000000000
   \<and> limit 1 (orderBy_timestamp_desc [(''b1'', block1), (''bX'', blockX)]) = [(''b1'', block1)]
   \<and> limit 1 (orderBy_timestamp_desc [(''bX'', blockX), (''b1'', block1)]) = [(''b1'', block1)]"
proof -
  have "blockchain (fst (createNewBlock env1 (eventData uploadLog) emptyWorld)) = [(''b1'', block1)]"
    using world1_blockchain by (simp add: world1_def)
  moreover have "hash block1 = toString (SHA256 (JSON_stringify
        (newBlockObject (timestamp block1) (activity block1) (previousHash block1))))"
    by (simp add: block1_def blockHash_def)
  moreover have "limit 1 (orderBy_timestamp_desc [(''bX'', blockX), (''b1'', block1)]) = [(''b1'', block1)]"
    using tip_after_add [of "[(''bX'', blockX)]" block1 "''b1''"] by (simp add: block1_def blockX_def)
  moreover have "limit 1 (orderBy_timestamp_desc [(''b1'', block1), (''bX'', blockX)]) = [(''b1'', block1)]"
    by (simp add: orderBy_timestamp_desc_def orderBy_timestamp_asc_def limit_def block1_def blockX_def)
  ultimately show ?thesis
    by (simp add: newBlockObject_def eventData_def uploadLog_def deleteLog_def block1_def blockX_def)
qed

lemma onSnapshot_Nil [simp]: "onSnapshot [] s = s"
  by (simp add: onSnapshot_def)

lemma onSnapshot_Cons:
  "onSnapshot (c # cs) s =
     onSnapshot cs (if change_type c = added then startCall (change_data c) s else s)"
  by (simp add: onSnapshot_def)

lemma onSnapshot_calls:
  "snd (onSnapshot docChanges s)
     = snd s @ map (\<lambda>c. AwaitingQuery (change_data c))
                 (filter (\<lambda>c. change_type c = added) docChanges)"
  by (induction docChanges arbitrary: s) (simp_all add: onSnapshot_Cons startCall_def)

lemma onSnapshot_requests:
  "requests (fst (onSnapshot docChanges s))
     = requests (fst s) @ replicate (length (filter (\<lambda>c. change_type c = added) docChanges)) QueryLatest"
  by (induction docChanges arbitrary: s)
     (simp_all add: onSnapshot_Cons startCall_def createNewBlock_begin_def send_def log_def
        replicate_app_Cons_same)

lemma onSnapshot_blockchain [simp]:
  "blockchain (fst (onSnapshot docChanges s)) = blockchain (fst s)"
  by (induction docChanges arbitrary: s) (simp_all add: onSnapshot_Cons startCall_def)

text \<open>
  The listener and the type of a change. For every list of changes a snapshot delivers, the
  listener starts a call of createNewBlock for exactly the changes of type added, in their
  order, with the data of the changed document, and sends one latest-block query for each;
  a change of type modified or removed starts nothing and changes nothing.
\<close>
lemma onSnapshot_starts_a_call_per_added_change:
  "snd (onSnapshot docChanges (w, cs))
     = cs @ map (\<lambda>c. AwaitingQuery (change_data c))
              (filter (\<lambda>c. change_type c = added) docChanges)
   \<and> requests (fst (onSnapshot docChanges (w, cs)))
     = requests w @ replicate (length (filter (\<lambda>c. change_type c = added) docChanges)) QueryLatest
   \<and> onSnapshot [\<lparr>change_type = added, change_data = d\<rparr>] (w, cs) = startCall d (w, cs)
   \<and> onSnapshot [\<lparr>change_type = modified, change_data = d\<rparr>] (w, cs) = (w, cs)
   \<and> onSnapshot [\<lparr>change_type = removed, change_data = d\<rparr>] (w, cs) = (w, cs)"
  using onSnapshot_calls [of docChanges "(w, cs)"] onSnapshot_requests [of docChanges "(w, cs)"]
  by (simp add: onSnapshot_Cons)

lemma resume_single_query:
  "createNewBlock_link e a w = (w', Inr b) \<Longrightarrow>
   resume (w, [AwaitingQuery a]) (w', [AwaitingAdd b])"
  using query_answered [where cs = "[]" and cs' = "[]"] by simp

lemma resume_single_add: "resume (w, [AwaitingAdd b]) (createNewBlock_added e b w, [])"
  using add_settled [where cs = "[]" and cs' = "[]"] by simp

text \<open>
  C5. Block creation is started for exactly the changes of type added (the lemma above);
  but the code does not keep an event that is already present at subscription time from
  being chained again, which the claim and the listener's own comments (lines 74-81: only
  new documents are of interest) ask for. The watcher is started on a chain that already
  holds the block of the upload event, with the event's document in the activity log: the
  first snapshot reports the document as added, the listener starts a call for it, and the
  two resumptions of that call store a second block with the same activity.
\<close>
theorem present_event_is_chained_again:
  "map (activity \<circ> snd) (blockchain world1) = [eventData uploadLog]
   \<and> snd restart0 = [AwaitingQuery (eventData uploadLog)]
   \<and> resume restart0 restart1 \<and> resume restart1 restart2
   \<and> snd restart2 = []
   \<and> map (activity \<circ> snd) (blockchain (fst restart2)) = [eventData uploadLog, eventData uploadLog]"
proof -
  let ?a = "eventData uploadLog"
  let ?w0 = "createNewBlock_begin (log WatchingForActivities world1)"
  have start: "restart0 = (?w0, [] @ AwaitingQuery ?a # [])"
    by (simp add: restart0_def watchActivityLog_def firstSnapshot_def onSnapshot_Cons startCall_def)
  have b: "linkedBlock env2 ?a (blockchain world1) = rechained"
    by (simp add: linkedBlock_def rechained_def world1_blockchain)
  have link: "createNewBlock_link env2 ?a ?w0 = (fst restart1, Inr rechained)"
    by (simp add: restart1_def start createNewBlock_link_eq env2_def b [unfolded env2_def])
  have bc1: "blockchain (fst restart1) = blockchain world1"
    by (simp add: restart1_def start createNewBlock_link_eq env2_def)
  have r1: "restart1 = (fst restart1, [AwaitingAdd rechained])"
    by (simp add: restart1_def)
  have "resume (?w0, [AwaitingQuery ?a]) (fst restart1, [AwaitingAdd rechained])"
    by (rule resume_single_query [OF link])
  then have step1: "resume restart0 restart1"
    using start r1 by (metis append_Nil)
  have "resume (fst restart1, [AwaitingAdd rechained])
          (createNewBlock_added env2 rechained (fst restart1), [])"
    by (rule resume_single_add)
  then have step2: "resume restart1 restart2"
    using r1 by (metis restart2_def)
  have final: "map (activity \<circ> snd) (blockchain (fst restart2)) = [?a, ?a]"
    by (simp add: restart2_def createNewBlock_added_def collection_add_def addRejection_def
        env2_def bc1 world1_blockchain rechained_def block1_def)
  have "map (activity \<circ> snd) (blockchain world1) = [?a]"
    by (simp add: world1_blockchain block1_def)
  moreover have "snd restart0 = [AwaitingQuery ?a]"
    by (simp add: start)
  moreover have "snd restart2 = []" by (simp add: restart2_def)
  ultimately show ?thesis using step1 step2 final by blast
qed

lemma linkedFrom_snoc:
  "linkedFrom p (bs @ [b]) \<longleftrightarrow>
     linkedFrom p bs \<and> previousHash b = (if bs = [] then p else hash (last bs)) \<and>
     hash b = recomputedHash b"
  by (induction bs arbitrary: p) auto

lemma linkedFrom_iff_nth:
  "linkedFrom p chain \<longleftrightarrow>
     (\<forall>k < length chain.
        previousHash (chain ! k) = (if k = 0 then p else hash (chain ! (k - 1))) \<and>
        hash (chain ! k) = recomputedHash (chain ! k))"
proof (induction chain arbitrary: p)
  case Nil
  show ?case by simp
next
  case (Cons b bs)
  have "(\<forall>k < length (b # bs). previousHash ((b # bs) ! k)
            = (if k = 0 then p else hash ((b # bs) ! (k - 1))) \<and>
          hash ((b # bs) ! k) = recomputedHash ((b # bs) ! k))
      \<longleftrightarrow> (previousHash b = p \<and> hash b = recomputedHash b) \<and>
          (\<forall>k < length bs. previousHash (bs ! k) = (if k = 0 then hash b else hash (bs ! (k - 1))) \<and>
             hash (bs ! k) = recomputedHash (bs ! k))"
    (is "?L \<longleftrightarrow> ?H \<and> ?T")
  proof
    assume l: ?L
    from l [rule_format, of 0] have ?H by simp
    moreover have ?T
    proof (intro allI impI)
      fix k assume "k < length bs"
      with l [rule_format, of "Suc k"] show "previousHash (bs ! k)
          = (if k = 0 then hash b else hash (bs ! (k - 1))) \<and> hash (bs ! k) = recomputedHash (bs ! k)"
        by (cases k) simp_all
    qed
    ultimately show "?H \<and> ?T" ..
  next
    assume r: "?H \<and> ?T"
    show ?L
    proof (intro allI impI)
      fix k assume k: "k < length (b # bs)"
      show "previousHash ((b # bs) ! k) = (if k = 0 then p else hash ((b # bs) ! (k - 1))) \<and>
            hash ((b # bs) ! k) = recomputedHash ((b # bs) ! k)"
      proof (cases k)
        case 0
        with r show ?thesis by simp
      next
        case (Suc j)
        with k r have "previousHash (bs ! j) = (if j = 0 then hash b else hash (bs ! (j - 1))) \<and>
             hash (bs ! j) = recomputedHash (bs ! j)"
          by simp
        with Suc show ?thesis by (cases j) simp_all
      qed
    qed
  qed
  with Cons.IH [of "hash b"] show ?case by simp
qed

lemma chainLinked_iff: "chainLinked chain \<longleftrightarrow> linkedFrom ''0'' chain"
  by (simp add: chainLinked_def linkedFrom_iff_nth)

lemma orderBy_asc_sorted:
  assumes "sorted_wrt (<) (map (\<lambda>d. timestamp (snd d)) ds)"
  shows "orderBy_timestamp_asc ds = ds"
proof -
  have "sorted_wrt (\<lambda>x y. timestamp (snd x) < timestamp (snd y)) ds"
    using assms by (simp add: sorted_wrt_map)
  then have "sorted_wrt (\<lambda>x y. (timestamp (snd x), fst x) \<le> (timestamp (snd y), fst y)) ds"
    by (rule sorted_wrt_mono_rel [rotated]) (simp add: less_eq_prod_def)
  then have "sorted (map (\<lambda>d. (timestamp (snd d), fst d)) ds)"
    by (simp add: sorted_wrt_map)
  then show ?thesis
    unfolding orderBy_timestamp_asc_def by (rule sort_key_id_if_sorted)
qed

lemma latestHash_snoc:
  assumes "\<forall>d \<in> set ds. timestamp (snd d) < timestamp b"
  shows "latestHash (ds @ [(i, b)]) = hash b"
  using tip_after_add [OF assms, of i] by (simp add: latestHash_def)

lemma latestHash_sorted:
  assumes "sorted_wrt (<) (map (\<lambda>d. timestamp (snd d)) ds)"
  shows "latestHash ds = (if ds = [] then ''0'' else hash (snd (last ds)))"
proof (cases ds rule: rev_cases)
  case Nil
  then show ?thesis by (simp add: latestHash_Nil)
next
  case (snoc ds' d)
  with assms have "\<forall>x \<in> set ds'. timestamp (snd x) < timestamp (snd d)"
    by (simp add: sorted_wrt_append)
  then have "latestHash (ds' @ [(fst d, snd d)]) = hash (snd d)"
    by (rule latestHash_snoc)
  with snoc show ?thesis by simp
qed

lemma createNewBlock_keeps_increasing_chain:
  assumes ts: "sorted_wrt (<) (map (\<lambda>d. timestamp (snd d)) (blockchain w))"
    and lk: "linkedFrom ''0'' (map snd (blockchain w))"
    and nw: "\<forall>d \<in> set (blockchain w). timestamp (snd d) < now e"
  shows "sorted_wrt (<) (map (\<lambda>d. timestamp (snd d)) (blockchain (fst (createNewBlock e a w))))
       \<and> linkedFrom ''0'' (map snd (blockchain (fst (createNewBlock e a w))))
       \<and> (\<forall>d \<in> set (blockchain (fst (createNewBlock e a w))). timestamp (snd d) \<le> now e)"
proof (cases "queryOutcome e = None \<and> addRejection e (blockchain w) = None")
  case False
  with assms show ?thesis
    by (auto simp: blockchain_createNewBlock intro: less_imp_le)
next
  case True
  let ?b = "linkedBlock e a (blockchain w)"
  have bc: "blockchain (fst (createNewBlock e a w)) = blockchain w @ [(autoId e, ?b)]"
    using True by (simp add: blockchain_createNewBlock)
  have tb: "timestamp ?b = now e" by (simp add: linkedBlock_def)
  have "sorted_wrt (<) (map (\<lambda>d. timestamp (snd d)) (blockchain w @ [(autoId e, ?b)]))"
    using ts nw by (simp add: sorted_wrt_append tb)
  moreover have "linkedFrom ''0'' (map snd (blockchain w @ [(autoId e, ?b)]))"
    using lk latestHash_sorted [OF ts]
    by (simp add: linkedFrom_snoc linkedBlock_def recomputedHash_def last_map)
  moreover have "\<forall>d \<in> set (blockchain w @ [(autoId e, ?b)]). timestamp (snd d) \<le> now e"
    using nw by (auto simp: tb intro: less_imp_le)
  ultimately show ?thesis by (simp only: bc)
qed

lemma processEvents_keeps_increasing_chain:
  assumes "sorted_wrt (<) (map (\<lambda>d. timestamp (snd d)) (blockchain w) @ map (\<lambda>ev. now (fst ev)) evs)"
    and "linkedFrom ''0'' (map snd (blockchain w))"
  shows "sorted_wrt (<) (map (\<lambda>d. timestamp (snd d)) (blockchain (processEvents evs w)))
       \<and> linkedFrom ''0'' (map snd (blockchain (processEvents evs w)))"
  using assms
proof (induction evs arbitrary: w)
  case Nil
  then show ?case by simp
next
  case (Cons ev evs)
  let ?w' = "fst (createNewBlock (fst ev) (snd ev) w)"
  from Cons.prems(1) have ts: "sorted_wrt (<) (map (\<lambda>d. timestamp (snd d)) (blockchain w))"
    and nw: "\<forall>d \<in> set (blockchain w). timestamp (snd d) < now (fst ev)"
    and later: "\<forall>x \<in> set evs. now (fst ev) < now (fst x)"
    and rest: "sorted_wrt (<) (map (\<lambda>ev. now (fst ev)) evs)"
    by (auto simp: sorted_wrt_append)
  from createNewBlock_keeps_increasing_chain [OF ts Cons.prems(2) nw, of "snd ev"]
  have ts': "sorted_wrt (<) (map (\<lambda>d. timestamp (snd d)) (blockchain ?w'))"
    and lk': "linkedFrom ''0'' (map snd (blockchain ?w'))"
    and le: "\<forall>d \<in> set (blockchain ?w'). timestamp (snd d) \<le> now (fst ev)"
    by blast+
  have "sorted_wrt (<) (map (\<lambda>d. timestamp (snd d)) (blockchain ?w') @ map (\<lambda>ev. now (fst ev)) evs)"
    using ts' rest le later by (fastforce simp: sorted_wrt_append)
  from Cons.IH [OF this lk'] show ?case by simp
qed

text \<open>
  C2 (as amended). Events are handed to block creation one at a time, from an empty
  collection, and the clock reading of each call is greater than that of the call before
  (whether or not a call is rejected and its event dropped). Then the chain read by
  ascending timestamp is the list of the stored blocks in the order of their creation, its
  first block has previousHash \<open>''0''\<close>, every later block has the hash of the block
  before as previousHash, and every block's hash is the digest of the serialization of its
  own timestamp, activity and previousHash.
\<close>
theorem chain_linked_under_increasing_clock:
  assumes "sorted_wrt (<) (map (\<lambda>ev. now (fst ev)) evs)"
  shows "listAll (blockchain (processEvents evs emptyWorld))
           = map snd (blockchain (processEvents evs emptyWorld))
       \<and> chainLinked (listAll (blockchain (processEvents evs emptyWorld)))"
proof -
  have "sorted_wrt (<) (map (\<lambda>d. timestamp (snd d)) (blockchain emptyWorld) @ map (\<lambda>ev. now (fst ev)) evs)"
    using assms by (simp add: emptyWorld_def)
  moreover have "linkedFrom ''0'' (map snd (blockchain emptyWorld))"
    by (simp add: emptyWorld_def)
  ultimately have "sorted_wrt (<) (map (\<lambda>d. timestamp (snd d)) (blockchain (processEvents evs emptyWorld)))"
    and lk: "linkedFrom ''0'' (map snd (blockchain (processEvents evs emptyWorld)))"
    using processEvents_keeps_increasing_chain by blast+
  then have "listAll (blockchain (processEvents evs emptyWorld))
               = map snd (blockchain (processEvents evs emptyWorld))"
    by (simp add: listAll_def orderBy_asc_sorted)
  with lk show ?thesis by (simp add: chainLinked_iff)
qed

lemma twoEvents_blockchain:
  "blockchain (processEvents [(env1, eventData uploadLog), (env2, eventData deleteLog)] emptyWorld)
     = [(''b1'', block1), (''b2'', block2)]"
  using world1_blockchain world2_blockchain by (simp add: world1_def)

theorem chain_linked_under_increasing_clock_witness:
  "sorted_wrt (<) (map (\<lambda>ev. now (fst ev)) [(env1, eventData uploadLog), (env2, eventData deleteLog)])
   \<and> listAll (blockchain (processEvents [(env1, eventData uploadLog), (env2, eventData deleteLog)]
        emptyWorld)) = [block1, block2]
   \<and> chainLinked [block1, block2]
   \<and> previousHash ([block1, block2] ! 1) = hash ([block1, block2] ! 0)"
proof -
  have h: "sorted_wrt (<) (map (\<lambda>ev. now (fst ev)) [(env1, eventData uploadLog), (env2, eventData deleteLog)])"
    by (simp add: env1_def env2_def)
  have "previousHash ([block1, block2] ! 1) = hash ([block1, block2] ! 0)"
    by (simp add: block2_def)
  then show ?thesis
    using h chain_linked_under_increasing_clock [OF h]
    by (auto simp del: processEvents.simps simp add: twoEvents_blockchain)
qed

lemma stepBackWorld_blockchain:
  "blockchain stepBackWorld = [(''b1'', stepBack1), (''b2'', stepBack2)]"
  by (simp add: stepBackWorld_def blockchain_createNewBlock emptyWorld_def addRejection_def
      accepting_def linkedBlock_def latestHash_Nil stepBack1_def stepBack2_def)

text \<open>
  C2 as stated fails when the clock steps back between two block creations: the second
  block gets the smaller timestamp, so the chain read by ascending timestamp starts with
  it, and its previousHash is the first block's hash, not \<open>''0''\<close>; the block after it
  has previousHash \<open>''0''\<close>, not its hash.
\<close>
theorem chain_broken_when_clock_steps_back:
  "stepBackWorld = processEvents [(accepting 1700000060000 ''b1'', eventData uploadLog),
                                  (accepting 1700000000000 ''b2'', eventData deleteLog)] emptyWorld
   \<and> listAll (blockchain stepBackWorld) = [stepBack2, stepBack1]
   \<and> previousHash (listAll (blockchain stepBackWorld) ! 0) \<noteq> ''0''
   \<and> previousHash (listAll (blockchain stepBackWorld) ! 1)
        \<noteq> hash (listAll (blockchain stepBackWorld) ! 0)
   \<and> \<not> chainLinked (listAll (blockchain stepBackWorld))"
proof -
  have l: "listAll (blockchain stepBackWorld) = [stepBack2, stepBack1]"
    by (simp add: listAll_def orderBy_timestamp_asc_def stepBackWorld_blockchain
        stepBack1_def stepBack2_def)
  have p0: "previousHash stepBack2 \<noteq> ''0''"
    using blockHash_not_sentinel by (simp add: stepBack2_def stepBack1_def)
  have p1: "previousHash stepBack1 \<noteq> hash stepBack2"
    using blockHash_not_sentinel [of 1700000000000 "eventData deleteLog" "hash stepBack1"]
    by (simp add: stepBack1_def stepBack2_def)
  have "\<not> chainLinked [stepBack2, stepBack1]"
    using p0 by (auto simp: chainLinked_def)
  with l p0 p1 show ?thesis by (simp add: stepBackWorld_def)
qed

lemma hash_length_kept:
  assumes "\<forall>d \<in> set (blockchain w). length (hash (snd d)) = 64"
  shows "\<forall>d \<in> set (blockchain (fst (createNewBlock e a w))). length (hash (snd d)) = 64"
  using assms by (auto simp: blockchain_createNewBlock linkedBlock_def length_blockHash)

lemma latestHash_not_sentinel:
  assumes "ds \<noteq> []" and "\<forall>d \<in> set ds. length (hash (snd d)) = 64"
  shows "latestHash ds \<noteq> ''0''"
proof -
  from latest_query [OF assms(1)] obtain d where
    "limit 1 (orderBy_timestamp_desc ds) = [d]" "d \<in> set ds" by blast
  with assms(2) have "latestHash ds = hash (snd d)" "length (hash (snd d)) = 64"
    by (simp_all add: latestHash_def)
  then show ?thesis by auto
qed

lemma sentinelOnlyFirst_snoc:
  assumes "sentinelOnlyFirst ds"
    and "previousHash (snd d) = ''0'' \<longleftrightarrow> ds = []"
  shows "sentinelOnlyFirst (ds @ [d])"
  unfolding sentinelOnlyFirst_def
proof (intro allI impI)
  fix k assume k: "k < length (ds @ [d])"
  show "previousHash (snd ((ds @ [d]) ! k)) = ''0'' \<longleftrightarrow> k = 0"
  proof (cases "k < length ds")
    case True
    with assms(1) show ?thesis by (simp add: sentinelOnlyFirst_def nth_append)
  next
    case False
    with k have "k = length ds" by simp
    with assms(2) show ?thesis by (simp add: nth_append)
  qed
qed

lemma createNewBlock_keeps_sentinel:
  assumes "sentinelOnlyFirst (blockchain w)"
    and "\<forall>d \<in> set (blockchain w). length (hash (snd d)) = 64"
  shows "sentinelOnlyFirst (blockchain (fst (createNewBlock e a w)))"
proof (cases "queryOutcome e = None \<and> addRejection e (blockchain w) = None")
  case False
  with assms(1) show ?thesis by (auto simp: blockchain_createNewBlock)
next
  case True
  have "previousHash (linkedBlock e a (blockchain w)) = ''0'' \<longleftrightarrow> blockchain w = []"
    using latestHash_not_sentinel [OF _ assms(2)]
    by (auto simp: linkedBlock_def latestHash_Nil)
  then have "sentinelOnlyFirst (blockchain w @ [(autoId e, linkedBlock e a (blockchain w))])"
    by (intro sentinelOnlyFirst_snoc [OF assms(1)]) simp
  with True show ?thesis by (simp add: blockchain_createNewBlock)
qed

lemma processEvents_keeps_sentinel:
  assumes "sentinelOnlyFirst (blockchain w)"
    and "\<forall>d \<in> set (blockchain w). length (hash (snd d)) = 64"
  shows "sentinelOnlyFirst (blockchain (processEvents evs w))"
  using assms
proof (induction evs arbitrary: w)
  case Nil
  then show ?case by simp
next
  case (Cons ev evs)
  show ?case
    using Cons.IH [OF createNewBlock_keeps_sentinel [OF Cons.prems]
        hash_length_kept [OF Cons.prems(2)]]
    by simp
qed

text \<open>
  C10 (as amended). For every timestamp, activity and previousHash, the hash computed at
  line 54 is a string of 64 hexadecimal digits, so it is never the sentinel \<open>''0''\<close>.
  Hence, when events are handed to block creation one at a time from an empty collection
  (each call ending before the next starts), the stored block whose previousHash is
  \<open>''0''\<close> is the first one created and no other.
\<close>
theorem hash_is_64_hex_digits_and_sentinel_only_first:
  "length (blockHash ts a p) = 64
   \<and> set (blockHash ts a p) \<subseteq> set ''0123456789abcdef''
   \<and> blockHash ts a p \<noteq> ''0''
   \<and> sentinelOnlyFirst (blockchain (processEvents evs emptyWorld))"
proof -
  have "sentinelOnlyFirst (blockchain (processEvents evs emptyWorld))"
    by (rule processEvents_keeps_sentinel) (simp_all add: emptyWorld_def sentinelOnlyFirst_def)
  then show ?thesis
    using length_blockHash [of ts a p] blockHash_not_sentinel [of ts a p]
      set_toString [of "SHA256 (JSON_stringify (newBlockObject ts a p))"]
    by (simp add: blockHash_def del: set_simps)
qed

theorem hash_is_64_hex_digits_and_sentinel_only_first_witness:
  "blockchain (processEvents [(env1, eventData uploadLog), (env2, eventData deleteLog)] emptyWorld)
     = [(''b1'', block1), (''b2'', block2)]
   \<and> previousHash block1 = ''0'' \<and> previousHash block2 \<noteq> ''0''"
proof -
  have "sentinelOnlyFirst [(''b1'', block1), (''b2'', block2)]"
    using hash_is_64_hex_digits_and_sentinel_only_first
            [of 0 JNull "[]" "[(env1, eventData uploadLog), (env2, eventData deleteLog)]"]
    by (simp only: twoEvents_blockchain)
  then have "previousHash (snd ([(''b1'', block1), (''b2'', block2)] ! 0)) = ''0''"
    and "previousHash (snd ([(''b1'', block1), (''b2'', block2)] ! 1)) \<noteq> ''0''"
    unfolding sentinelOnlyFirst_def by (fastforce, fastforce)
  then show ?thesis by (simp add: twoEvents_blockchain del: processEvents.simps)
qed

text \<open>
  Two changes of type added in one snapshot, for the upload and for the deletion: the
  listener starts both calls, the two queries are answered before either add is sent, and
  then the two adds settle.
\<close>
lemma overlapping_calls_run:
  "blockchain (fst both0) = []
   \<and> snd both0 = [AwaitingQuery (eventData uploadLog), AwaitingQuery (eventData deleteLog)]
   \<and> resume both0 both1 \<and> resume both1 both2 \<and> resume both2 both3 \<and> resume both3 both4
   \<and> snd both4 = []
   \<and> blockchain (fst both4) = [(''b1'', block1), (''b2'', genesis2)]"
proof -
  let ?u = "eventData uploadLog" and ?d = "eventData deleteLog"
  have s0: "both0 = (fst both0, [] @ AwaitingQuery ?u # [AwaitingQuery ?d])"
    and bc0: "blockchain (fst both0) = []"
    by (simp_all add: both0_def twoAdded_def onSnapshot_Cons startCall_def emptyWorld_def)
  have l1: "createNewBlock_link env1 ?u (fst both0) = (fst both1, Inr block1)"
    by (simp add: both1_def createNewBlock_link_eq bc0 linkedBlock_def latestHash_Nil block1_def
        env1_def)
  have bc1: "blockchain (fst both1) = []"
    by (simp add: both1_def createNewBlock_link_eq bc0 env1_def)
  have l2: "createNewBlock_link env2 ?d (fst both1) = (fst both2, Inr genesis2)"
    by (simp add: both2_def createNewBlock_link_eq bc1 linkedBlock_def latestHash_Nil genesis2_def
        env2_def)
  have bc2: "blockchain (fst both2) = []"
    by (simp add: both2_def createNewBlock_link_eq bc1 env2_def)
  have bc3: "blockchain (fst both3) = [(''b1'', block1)]"
    by (simp add: both3_def createNewBlock_added_def collection_add_def addRejection_def bc2 env1_def)
  have bc4: "blockchain (fst both4) = [(''b1'', block1), (''b2'', genesis2)]"
    by (simp add: both4_def createNewBlock_added_def collection_add_def addRejection_def bc3 env2_def)
  have "resume (fst both0, [] @ AwaitingQuery ?u # [AwaitingQuery ?d])
          (fst both1, [] @ AwaitingAdd block1 # [AwaitingQuery ?d])"
    by (rule query_answered [OF l1])
  then have r1: "resume both0 both1"
    using s0 by (simp add: both1_def)
  have "resume (fst both1, [AwaitingAdd block1] @ AwaitingQuery ?d # [])
          (fst both2, [AwaitingAdd block1] @ AwaitingAdd genesis2 # [])"
    by (rule query_answered [OF l2])
  then have r2: "resume both1 both2"
    by (simp add: both1_def both2_def)
  have "resume (fst both2, [] @ AwaitingAdd block1 # [AwaitingAdd genesis2])
          (createNewBlock_added env1 block1 (fst both2), [] @ [AwaitingAdd genesis2])"
    by (rule add_settled)
  then have r3: "resume both2 both3"
    by (simp add: both2_def both3_def)
  have "resume (fst both3, [] @ AwaitingAdd genesis2 # [])
          (createNewBlock_added env2 genesis2 (fst both3), [] @ [])"
    by (rule add_settled)
  then have r4: "resume both3 both4"
    by (simp add: both3_def both4_def)
  have "snd both0 = [AwaitingQuery ?u, AwaitingQuery ?d]"
    using s0 by (metis append_Nil snd_conv)
  moreover have "snd both4 = []" by (simp add: both4_def)
  ultimately show ?thesis
    using bc0 r1 r2 r3 r4 bc4 by simp
qed

text \<open>
  C10 as stated fails in its consequence: the listener does not await createNewBlock, so
  the calls for two changes of one snapshot overlap. Both queries are answered before
  either add is sent, both see an empty collection, and both blocks are stored with
  previousHash \<open>''0''\<close>.
\<close>
theorem two_genesis_blocks_when_calls_overlap:
  "blockchain (fst both0) = []
   \<and> snd both0 = [AwaitingQuery (eventData uploadLog), AwaitingQuery (eventData deleteLog)]
   \<and> resume both0 both1 \<and> resume both1 both2 \<and> resume both2 both3 \<and> resume both3 both4
   \<and> snd both4 = []
   \<and> blockchain (fst both4) = [(''b1'', block1), (''b2'', genesis2)]
   \<and> previousHash block1 = ''0'' \<and> previousHash genesis2 = ''0''
   \<and> \<not> sentinelOnlyFirst (blockchain (fst both4))"
proof -
  have ns: "\<not> sentinelOnlyFirst [(''b1'', block1), (''b2'', genesis2)]"
    unfolding sentinelOnlyFirst_def
    by (auto simp: genesis2_def intro!: exI [of _ 1])
  have "previousHash block1 = ''0''" "previousHash genesis2 = ''0''"
    by (simp_all add: block1_def genesis2_def)
  then show ?thesis
    using overlapping_calls_run ns by simp
qed

lemma deriveFiles_after_upload:
  "deriveFiles [uploadOf a1 t1]
     = [\<lparr>file_id = a1, file_name = ''a.txt'', file_type = ''doc'', file_timestamp = t1\<rparr>]"
  by (simp add: deriveFiles_def applyLog_def uploadOf_def getFileType_def toLowerCase_char_def)

text \<open>
  C8 (as amended). The upload of \<^verbatim>\<open>a.txt\<close> and then its deletion are handed to block
  creation one after the other, the first call ended before the second starts, and nothing
  rejects either call (the two generated ids differ). Then exactly two blocks are stored;
  the block created first has previousHash \<open>''0''\<close> and the block created second has the
  first one's hash as previousHash; when the clock reading of the second call is the greater,
  they are also the first and the second block of the chain read by ascending timestamp;
  and the file list derived from the log of the two events is empty.
\<close>
theorem upload_then_delete:
  assumes "i1 \<noteq> i2"
  shows "(\<exists>b1 b2.
           blockchain (processEvents [(accepting n1 i1, eventData (uploadOf a1 t1)),
                                      (accepting n2 i2, eventData (deleteOf a2 t2))] emptyWorld)
             = [(i1, b1), (i2, b2)]
           \<and> activity b1 = eventData (uploadOf a1 t1) \<and> activity b2 = eventData (deleteOf a2 t2)
           \<and> previousHash b1 = ''0'' \<and> previousHash b2 = hash b1
           \<and> (n1 < n2 \<longrightarrow>
                listAll (blockchain (processEvents
                  [(accepting n1 i1, eventData (uploadOf a1 t1)),
                   (accepting n2 i2, eventData (deleteOf a2 t2))] emptyWorld)) = [b1, b2]))
       \<and> deriveFiles [uploadOf a1 t1, deleteOf a2 t2] = []"
proof -
  let ?b1 = "linkedBlock (accepting n1 i1) (eventData (uploadOf a1 t1)) []"
  let ?b2 = "linkedBlock (accepting n2 i2) (eventData (deleteOf a2 t2)) [(i1, ?b1)]"
  let ?w = "processEvents [(accepting n1 i1, eventData (uploadOf a1 t1)),
                           (accepting n2 i2, eventData (deleteOf a2 t2))] emptyWorld"
  have files: "deriveFiles [uploadOf a1 t1, deleteOf a2 t2] = []"
    by (simp add: deriveFiles_def applyLog_def uploadOf_def deleteOf_def Map_delete_def)
  have bc: "blockchain ?w = [(i1, ?b1), (i2, ?b2)]"
    using assms
    by (simp add: blockchain_createNewBlock emptyWorld_def addRejection_def accepting_def)
  have "listAll [(i1, ?b1), (i2, ?b2)] = [?b1, ?b2]" if "n1 < n2"
    using that orderBy_asc_sorted [of "[(i1, ?b1), (i2, ?b2)]"]
    by (simp add: listAll_def linkedBlock_def accepting_def)
  then have "blockchain ?w = [(i1, ?b1), (i2, ?b2)]
      \<and> activity ?b1 = eventData (uploadOf a1 t1) \<and> activity ?b2 = eventData (deleteOf a2 t2)
      \<and> previousHash ?b1 = ''0'' \<and> previousHash ?b2 = hash ?b1
      \<and> (n1 < n2 \<longrightarrow> listAll (blockchain ?w) = [?b1, ?b2])"
    using bc by (simp add: linkedBlock_def latestHash_Nil)
  with files show ?thesis by blast
qed

theorem upload_then_delete_witness:
  "''b1'' \<noteq> ''b2'' \<and> (1700000000000 :: int) < 1700000060000
   \<and> (\<exists>b1 b2.
         blockchain (processEvents
             [(accepting 1700000000000 ''b1'', eventData (uploadOf ''a1'' 1699999999000)),
              (accepting 1700000060000 ''b2'', eventData (deleteOf ''a2'' 1700000059000))] emptyWorld)
           = [(''b1'', b1), (''b2'', b2)]
         \<and> previousHash b2 = hash b1
         \<and> listAll (blockchain (processEvents
             [(accepting 1700000000000 ''b1'', eventData (uploadOf ''a1'' 1699999999000)),
              (accepting 1700000060000 ''b2'', eventData (deleteOf ''a2'' 1700000059000))] emptyWorld))
           = [b1, b2])
   \<and> deriveFiles [uploadOf ''a1'' 1699999999000, deleteOf ''a2'' 1700000059000] = []"
proof -
  have h: "''b1'' \<noteq> ''b2''" by simp
  have c: "(1700000000000 :: int) < 1700000060000" by simp
  show ?thesis
    using h c upload_then_delete [OF h, of 1700000000000 "''a1''" 1699999999000
        1700000060000 "''a2''" 1700000059000]
    by blast
qed

lemma rejected_delete_blockchain:
  "blockchain (processEvents [(env1, eventData uploadLog), (envAddFails, eventData deleteLog)]
                 emptyWorld) = [(''b1'', block1)]"
  using world1_blockchain
  by (simp add: world1_def blockchain_createNewBlock envAddFails_def addRejection_def)

lemma stepBackWorld_listAll: "listAll (blockchain stepBackWorld) = [stepBack2, stepBack1]"
  by (simp add: listAll_def orderBy_timestamp_asc_def stepBackWorld_blockchain
      stepBack1_def stepBack2_def)

text \<open>
  C8 as stated fails when the two events are not handled one after the other, or when a
  call is rejected. Delivered in one snapshot, the two events start two calls that overlap:
  both queries see the empty collection, and the block of the deletion is stored with
  previousHash \<open>''0''\<close>, not the hash of the block of the upload. When the add of the
  second call is rejected, one block is stored, not two. And when the clock steps back
  between the two calls, the chain read by ascending timestamp lists the block of the
  deletion first, so that its second block does not name the hash of its first.
\<close>
theorem upload_then_delete_overlapping_or_rejected:
  "blockchain (fst both0) = []
   \<and> snd both0 = [AwaitingQuery (eventData uploadLog), AwaitingQuery (eventData deleteLog)]
   \<and> resume both0 both1 \<and> resume both1 both2 \<and> resume both2 both3 \<and> resume both3 both4
   \<and> snd both4 = []
   \<and> blockchain (fst both4) = [(''b1'', block1), (''b2'', genesis2)]
   \<and> activity block1 = eventData uploadLog \<and> activity genesis2 = eventData deleteLog
   \<and> previousHash genesis2 \<noteq> hash block1
   \<and> blockchain (processEvents [(env1, eventData uploadLog), (envAddFails, eventData deleteLog)]
                   emptyWorld) = [(''b1'', block1)]
   \<and> stepBackWorld = processEvents [(accepting 1700000060000 ''b1'', eventData uploadLog),
                                     (accepting 1700000000000 ''b2'', eventData deleteLog)] emptyWorld
   \<and> listAll (blockchain stepBackWorld) = [stepBack2, stepBack1]
   \<and> previousHash stepBack1 \<noteq> hash stepBack2"
proof -
  have "previousHash stepBack1 \<noteq> hash stepBack2"
    using blockHash_not_sentinel [of 1700000000000 "eventData deleteLog" "hash stepBack1"]
    by (simp add: stepBack1_def stepBack2_def)
  moreover have "previousHash genesis2 \<noteq> hash block1"
    using blockHash_not_sentinel [of 1700000000000 "eventData uploadLog" "''0''"]
    by (simp add: genesis2_def block1_def)
  moreover have "activity block1 = eventData uploadLog" "activity genesis2 = eventData deleteLog"
    by (simp_all add: block1_def genesis2_def)
  ultimately show ?thesis
    using overlapping_calls_run rejected_delete_blockchain stepBackWorld_listAll
    by (simp add: stepBackWorld_def)
qed

lemma violatedFrom_Suc:
  "violatedFrom n p (b # bs) (Suc j) = violatedFrom (Suc n) (hash b) bs j"
  by (cases j) (simp_all add: violatedFrom_def linkBrokenFrom_def hashBroken_def)

lemma reasonFrom_Suc: "reasonFrom n p (b # bs) (Suc j) = reasonFrom (Suc n) (hash b) bs j"
  by (cases j) (simp_all add: reasonFrom_def linkBrokenFrom_def)

lemma verifyFrom_ok_head:
  "\<not> violatedFrom n p (b # bs) 0 \<Longrightarrow> verifyFrom n p (b # bs) = verifyFrom (Suc n) (hash b) bs"
  by (auto simp: violatedFrom_def linkBrokenFrom_def hashBroken_def)

lemma verifyFrom_bad_head:
  "violatedFrom n p (b # bs) 0 \<Longrightarrow>
   verifyFrom n p (b # bs) = Invalid n (reasonFrom n p (b # bs) 0)"
  by (auto simp: violatedFrom_def reasonFrom_def linkBrokenFrom_def hashBroken_def)

lemma verifyFrom_first_violation:
  assumes "j < length bs" and "\<forall>k<j. \<not> violatedFrom n p bs k" and "violatedFrom n p bs j"
  shows "verifyFrom n p bs = Invalid (n + j) (reasonFrom n p bs j)"
  using assms
proof (induction bs arbitrary: n p j)
  case Nil
  then show ?case by simp
next
  case (Cons b bs)
  show ?case
  proof (cases j)
    case 0
    with Cons.prems(3) show ?thesis by (simp add: verifyFrom_bad_head del: verifyFrom.simps)
  next
    case (Suc j')
    with Cons.prems(2) have ok: "\<not> violatedFrom n p (b # bs) 0" by simp
    have "\<forall>k<j'. \<not> violatedFrom (Suc n) (hash b) bs k"
      using Cons.prems(2) Suc by (metis Suc_less_eq violatedFrom_Suc)
    moreover have "violatedFrom (Suc n) (hash b) bs j'"
      using Cons.prems(3) Suc by (simp add: violatedFrom_Suc)
    moreover have "j' < length bs" using Cons.prems(1) Suc by simp
    ultimately have "verifyFrom (Suc n) (hash b) bs
                       = Invalid (Suc n + j') (reasonFrom (Suc n) (hash b) bs j')"
      by (intro Cons.IH)
    with ok Suc show ?thesis
      by (simp add: verifyFrom_ok_head reasonFrom_Suc del: verifyFrom.simps)
  qed
qed



lemma linkBrokenFrom_0: "linkBrokenFrom 0 ''0'' chain k = linkBroken chain k"
  by (simp add: linkBrokenFrom_def linkBroken_def)

lemma violatedFrom_0: "violatedFrom 0 ''0'' chain k = violated chain k"
  by (simp add: violatedFrom_def violated_def linkBrokenFrom_0)

lemma reasonFrom_0: "reasonFrom 0 ''0'' chain k = reasonAt chain k"
  by (simp add: reasonFrom_def reasonAt_def linkBrokenFrom_0)

lemma verify_first_violation:
  assumes "i < length chain" and "\<forall>k<i. \<not> violated chain k" and "violated chain i"
  shows "verify chain = Invalid i (reasonAt chain i)"
  using verifyFrom_first_violation [of i chain 0 "''0''"] assms
  by (simp add: verify_def violatedFrom_0 reasonFrom_0)



lemma broken_cong:
  assumes "xs ! k = ys ! k" and "xs ! (k - 1) = ys ! (k - 1)"
  shows "linkBroken xs k = linkBroken ys k" and "hashBroken xs k = hashBroken ys k"
    and "violated xs k = violated ys k" and "reasonAt xs k = reasonAt ys k"
  using assms by (simp_all add: linkBroken_def hashBroken_def violated_def reasonAt_def)




text \<open>
  The two mutations of spec section 8, on a chain with no violation: a previousHash
  swapped to a value other than the hash of the block before is reported as a linkage
  mismatch at its index, and a changed stored hash as a hash mismatch at its index.
\<close>
lemma verify_swapped_previousHash:
  assumes "\<forall>k<length chain. \<not> violated chain k" and "0 < i" and "i < length chain"
    and "p \<noteq> hash (chain ! (i - 1))"
  shows "verify (chain[i := (chain ! i)\<lparr>previousHash := p\<rparr>]) = Invalid i LinkageMismatch"
proof -
  let ?c = "chain[i := (chain ! i)\<lparr>previousHash := p\<rparr>]"
  have lb: "linkBroken ?c i"
    using assms(2,3,4) by (simp add: linkBroken_def)
  have "\<not> violated ?c k" if "k < i" for k
  proof -
    from that have "?c ! k = chain ! k" "?c ! (k - 1) = chain ! (k - 1)" by simp_all
    then have "violated ?c k = violated chain k" by (rule broken_cong)
    with assms(1,3) that show ?thesis by simp
  qed
  then have "verify ?c = Invalid i (reasonAt ?c i)"
    using lb assms(3) by (intro verify_first_violation) (simp_all add: violated_def)
  with lb show ?thesis by (simp add: reasonAt_def)
qed

lemma verify_changed_hash:
  assumes "\<forall>k<length chain. \<not> violated chain k" and "i < length chain"
    and "h \<noteq> hash (chain ! i)"
  shows "verify (chain[i := (chain ! i)\<lparr>hash := h\<rparr>]) = Invalid i HashMismatch"
proof -
  let ?c = "chain[i := (chain ! i)\<lparr>hash := h\<rparr>]"
  from assms(1,2) have ok: "\<not> linkBroken chain i" "\<not> hashBroken chain i"
    by (auto simp: violated_def)
  have prev: "?c ! (i - 1) = chain ! (i - 1)" if "0 < i"
    using that by simp
  have nl: "\<not> linkBroken ?c i"
    using ok(1) assms(2) prev by (cases "i = 0") (simp_all add: linkBroken_def)
  have hb: "hashBroken ?c i"
    using ok(2) assms(2,3) by (simp add: hashBroken_def recomputedHash_def)
  have "\<not> violated ?c k" if "k < i" for k
  proof -
    from that have "?c ! k = chain ! k" "?c ! (k - 1) = chain ! (k - 1)" by simp_all
    then have "violated ?c k = violated chain k" by (rule broken_cong)
    with assms(1,2) that show ?thesis by simp
  qed
  then have "verify ?c = Invalid i (reasonAt ?c i)"
    using hb assms(2) by (intro verify_first_violation) (simp_all add: violated_def)
  with nl show ?thesis by (simp add: reasonAt_def)
qed










end
